theory Spec2Isabelle
  imports Main "HOL-Library.AList"
begin

section \<open>Time\<close>

text \<open>
  A Python \<^verbatim>\<open>datetime\<close> is modelled as an integer number of microseconds on an
  unbounded time axis, and \<^verbatim>\<open>timedelta(seconds=s)\<close> as \<open>s * 1000000\<close>.  Comparison
  and subtraction of datetimes are then integer comparison and subtraction.  The
  bounded range of \<^verbatim>\<open>datetime\<close> (years 1 to 9999, where arithmetic raises
  \<^verbatim>\<open>OverflowError\<close>) is not modelled.  A \<^verbatim>\<open>datetime\<close> object is always truthy, so
  \<^verbatim>\<open>if not self.last_seen\<close> tests for \<^verbatim>\<open>None\<close>.
\<close>

type_synonym datetime = int

definition timedelta :: "int \<Rightarrow> int" where
  "timedelta seconds = seconds * 1000000"

section \<open>core/parser.py: LogEntry\<close>

record log_entry =
  e_timestamp :: datetime
  e_source_ip :: string
  e_protocol :: string
  e_destination :: string
  e_destination_port :: int
  e_action :: string
  e_email :: string
  e_raw_line :: string

section \<open>core/tracker.py\<close>

subsection \<open>get_subnet_24, group_ips_by_subnet\<close>

text \<open>\<^verbatim>\<open>str.split(sep)\<close> with a one-character separator: always at least one part.\<close>

fun split :: "char \<Rightarrow> string \<Rightarrow> string list" where
  "split sep [] = [[]]"
| "split sep (c # cs) =
     (if c = sep then [] # split sep cs
      else (c # hd (split sep cs)) # tl (split sep cs))"

text \<open>\<^verbatim>\<open>sep.join(parts)\<close>.\<close>

fun join :: "string \<Rightarrow> string list \<Rightarrow> string" where
  "join sep [] = []"
| "join sep [p] = p"
| "join sep (p # q # ps) = p @ sep @ join sep (q # ps)"

definition get_subnet_24 :: "string \<Rightarrow> string" where
  "get_subnet_24 ip =
     (let parts = split (CHR ''.'') ip
      in if length parts = 4 then join ''.'' (take 3 parts) else ip)"

definition group_ips_by_subnet :: "string set \<Rightarrow> string set" where
  "group_ips_by_subnet ips = get_subnet_24 ` ips"

subsection \<open>RequestLog, IPStats, UserInfo\<close>

record request_log =
  r_timestamp :: datetime
  r_source_ip :: string
  r_destination :: string
  r_dest_port :: int
  r_action :: string
  r_node_name :: string

record ip_stats_rec =
  stat_last_seen :: datetime
  stat_request_count :: int

text \<open>
  The dictionaries \<^verbatim>\<open>ip_stats\<close> and \<^verbatim>\<open>ip_timestamps\<close> are iterated by the code, so they
  are association lists in insertion order: \<open>AList.update\<close> overwrites a key in place or
  appends a new one, as a Python dict does, and \<open>AList.delete\<close> is \<^verbatim>\<open>del d[k]\<close>.
\<close>

record user_info =
  email :: string
  ip_stats :: "(string \<times> ip_stats_rec) list"
  ip_timestamps :: "(string \<times> datetime) list"
  request_count :: int
  blocked_count :: int
  last_seen :: "datetime option"
  first_seen :: "datetime option"
  recent_requests :: "request_log list"

text \<open>\<^verbatim>\<open>UserInfo(email=email)\<close>: all other fields at their defaults.\<close>

definition UserInfo :: "string \<Rightarrow> user_info" where
  "UserInfo em =
     \<lparr>email = em, ip_stats = [], ip_timestamps = [], request_count = 0, blocked_count = 0,
      last_seen = None, first_seen = None, recent_requests = []\<rparr>"

text \<open>The field \<^verbatim>\<open>_max_requests\<close> is never assigned after construction.\<close>

definition max_requests :: nat where
  "max_requests = 100"

definition add_ip :: "user_info \<Rightarrow> string \<Rightarrow> datetime \<Rightarrow> user_info" where
  "add_ip u ip ts =
     u\<lparr>ip_stats :=
         (case map_of (ip_stats u) ip of
            Some s \<Rightarrow>
              AList.update ip
                (s\<lparr>stat_last_seen := ts, stat_request_count := stat_request_count s + 1\<rparr>)
                (ip_stats u)
          | None \<Rightarrow>
              AList.update ip \<lparr>stat_last_seen = ts, stat_request_count = 1\<rparr> (ip_stats u)),
       ip_timestamps := AList.update ip ts (ip_timestamps u)\<rparr>"

definition add_request ::
  "user_info \<Rightarrow> datetime \<Rightarrow> string \<Rightarrow> string \<Rightarrow> int \<Rightarrow> string \<Rightarrow> string \<Rightarrow> user_info" where
  "add_request u ts src dst port act node =
     (let rs = recent_requests u @
               [\<lparr>r_timestamp = ts, r_source_ip = src, r_destination = dst,
                 r_dest_port = port, r_action = act, r_node_name = node\<rparr>]
      in u\<lparr>recent_requests :=
             (if length rs > max_requests then drop (length rs - max_requests) rs else rs)\<rparr>)"

definition get_recent_ips :: "user_info \<Rightarrow> int \<Rightarrow> int \<Rightarrow> string set" where
  "get_recent_ips u window_seconds min_requests =
     (case last_seen u of
        None \<Rightarrow> {}
      | Some ls \<Rightarrow>
          (let cutoff = ls - timedelta window_seconds
           in set (map fst
                (filter (\<lambda>(ip, stats). stat_last_seen stats \<ge> cutoff
                                        \<and> stat_request_count stats \<ge> min_requests)
                   (ip_stats u)))))"

text \<open>Returns the updated user and the number of removed addresses.\<close>

definition cleanup_old_ips :: "user_info \<Rightarrow> int \<Rightarrow> user_info \<times> nat" where
  "cleanup_old_ips u window_seconds =
     (case last_seen u of
        None \<Rightarrow> (u, 0)
      | Some ls \<Rightarrow>
          (let cutoff = ls - timedelta window_seconds;
               ips_to_remove =
                 map fst (filter (\<lambda>(ip, stats). stat_last_seen stats < cutoff) (ip_stats u))
           in (u\<lparr>ip_stats := fold AList.delete ips_to_remove (ip_stats u),
                 ip_timestamps := fold AList.delete ips_to_remove (ip_timestamps u)\<rparr>,
               length ips_to_remove)))"

subsection \<open>UserTracker\<close>

record user_tracker =
  users :: "(string \<times> user_info) list"
  total_requests :: int
  total_blocked :: int
  window_seconds :: int
  min_ips_for_alert :: int
  max_age_seconds :: int
  latest_timestamp :: "datetime option"

definition UserTracker :: "int \<Rightarrow> int \<Rightarrow> int \<Rightarrow> user_tracker" where
  "UserTracker window min_ips max_age =
     \<lparr>users = [], total_requests = 0, total_blocked = 0, window_seconds = window,
      min_ips_for_alert = min_ips, max_age_seconds = max_age, latest_timestamp = None\<rparr>"

text \<open>
  \<^verbatim>\<open>process_entry\<close> mutates the user object stored in \<^verbatim>\<open>_users\<close> and returns it; the
  model returns the updated tracker together with that user.
\<close>

definition process_entry ::
  "user_tracker \<Rightarrow> log_entry \<Rightarrow> string \<Rightarrow> user_tracker \<times> user_info" where
  "process_entry tr entry node_name =
     (let em = e_email entry;
          us0 = (if map_of (users tr) em = None
                 then AList.update em (UserInfo em) (users tr) else users tr);
          u0 = (case map_of us0 em of Some u \<Rightarrow> u | None \<Rightarrow> UserInfo em);
          u1 = add_ip u0 (e_source_ip entry) (e_timestamp entry);
          u2 = u1\<lparr>request_count := request_count u1 + 1\<rparr>;
          u3 = add_request u2 (e_timestamp entry) (e_source_ip entry) (e_destination entry)
                 (e_destination_port entry) (e_action entry) node_name;
          u4 = (if first_seen u3 = None then u3\<lparr>first_seen := Some (e_timestamp entry)\<rparr>
                else u3);
          u5 = u4\<lparr>last_seen := Some (e_timestamp entry)\<rparr>;
          blocked = (e_action entry = ''BLOCK'');
          u6 = (if blocked then u5\<lparr>blocked_count := blocked_count u5 + 1\<rparr> else u5);
          tr1 = tr\<lparr>users := AList.update em u6 us0,
                   total_blocked := (if blocked then total_blocked tr + 1 else total_blocked tr),
                   total_requests := total_requests tr + 1\<rparr>;
          tr2 = (case latest_timestamp tr1 of
                   None \<Rightarrow> tr1\<lparr>latest_timestamp := Some (e_timestamp entry)\<rparr>
                 | Some lt \<Rightarrow>
                     if e_timestamp entry > lt
                     then tr1\<lparr>latest_timestamp := Some (e_timestamp entry)\<rparr> else tr1)
      in (tr2, u6))"

text \<open>
  \<^verbatim>\<open>cleanup_old_data\<close>: one pass over the users that marks stale users and expires the
  addresses of every other user, then the marked users are deleted.
\<close>

fun cleanup_pass ::
  "datetime \<Rightarrow> int \<Rightarrow> (string \<times> user_info) list \<Rightarrow> (string \<times> user_info) list \<times> string list" where
  "cleanup_pass cutoff window [] = ([], [])"
| "cleanup_pass cutoff window ((em, u) # rest) =
     (let (rest', removed) = cleanup_pass cutoff window rest
      in if (case last_seen u of Some ls \<Rightarrow> ls < cutoff | None \<Rightarrow> False)
         then ((em, u) # rest', em # removed)
         else ((em, fst (cleanup_old_ips u window)) # rest', removed))"

definition cleanup_old_data :: "user_tracker \<Rightarrow> user_tracker \<times> nat" where
  "cleanup_old_data tr =
     (case latest_timestamp tr of
        None \<Rightarrow> (tr, 0)
      | Some lt \<Rightarrow>
          (let cutoff = lt - timedelta (max_age_seconds tr);
               (us, users_to_remove) = cleanup_pass cutoff (window_seconds tr) (users tr)
           in (tr\<lparr>users := fold AList.delete users_to_remove us\<rparr>, length users_to_remove)))"

definition get_user :: "user_tracker \<Rightarrow> string \<Rightarrow> user_info option" where
  "get_user tr em = map_of (users tr) em"

section \<open>core/panel_api.py\<close>

text \<open>
  The cache maps a user id to its panel record.  \<^verbatim>\<open>hwidDeviceLimit\<close> comes from JSON
  and may be \<^verbatim>\<open>null\<close>, hence the optional limit.  The other fields (\<^verbatim>\<open>telegram_id\<close>,
  \<^verbatim>\<open>description\<close>, \<^verbatim>\<open>username\<close>, \<^verbatim>\<open>short_uuid\<close>) are texts that the server only passes
  on to the database and the notifier; they are left out.
\<close>

record panel_user =
  pu_limit :: "int option"

record panel_api =
  p_users :: "string \<rightharpoonup> panel_user"
  p_loaded :: bool

definition get_limit :: "panel_api \<Rightarrow> string \<Rightarrow> int option" where
  "get_limit panel user_id =
     (case p_users panel user_id of Some user \<Rightarrow> pu_limit user | None \<Rightarrow> None)"

definition get_user_info :: "panel_api \<Rightarrow> string \<Rightarrow> panel_user option" where
  "get_user_info panel user_id = p_users panel user_id"

definition is_loaded :: "panel_api \<Rightarrow> bool" where
  "is_loaded panel = p_loaded panel"

section \<open>server.py: BanhammerServer\<close>

subsection \<open>Settings and state\<close>

text \<open>The settings read from the environment in \<^verbatim>\<open>__init__\<close>; they never change.\<close>

record settings =
  api_token :: string
  concurrent_window :: int
  trigger_period :: int
  trigger_count :: int
  banlist_threshold :: int
  subnet_grouping :: bool
  data_retention :: int
  whitelist_emails :: "string set"
  notification_interval :: int

text \<open>
  The mutable state.  \<^verbatim>\<open>_user_triggers\<close> is iterated by key, so it is an association
  list.  \<^verbatim>\<open>_current_violators\<close> is a Python set that \<^verbatim>\<open>_check_limits\<close> iterates; it is
  a list without duplicates (\<open>add_violator\<close>, \<open>discard_violator\<close>), read through \<open>set\<close>,
  and iterated in list order, which stands for the unspecified iteration order of the
  Python set.  The dictionaries that are only looked up are maps.
\<close>

record server =
  tracker :: user_tracker
  user_triggers :: "(string \<times> datetime list) list"
  violator_first_seen :: "string \<rightharpoonup> datetime"
  violator_ips :: "string \<rightharpoonup> string set"
  confirmed_violators :: "string set"
  user_limits :: "string \<rightharpoonup> int"
  current_violators :: "string list"
  last_notification :: "string \<rightharpoonup> datetime"

definition BanhammerServer :: "settings \<Rightarrow> server" where
  "BanhammerServer cfg =
     \<lparr>tracker = UserTracker (concurrent_window cfg) 3 (data_retention cfg),
      user_triggers = [], violator_first_seen = Map.empty, violator_ips = Map.empty,
      confirmed_violators = {}, user_limits = Map.empty, current_violators = [],
      last_notification = Map.empty\<rparr>"

definition add_violator :: "string \<Rightarrow> string list \<Rightarrow> string list" where
  "add_violator em vs = (if em \<in> set vs then vs else vs @ [em])"

definition discard_violator :: "string \<Rightarrow> string list \<Rightarrow> string list" where
  "discard_violator em vs = removeAll em vs"

subsection \<open>\_check\_concurrent\_ips and \_on\_entry\<close>

text \<open>The list comprehension \<^verbatim>\<open>[t for t in triggers if t >= cutoff]\<close>.\<close>

definition prune :: "datetime \<Rightarrow> datetime list \<Rightarrow> datetime list" where
  "prune cutoff l = filter (\<lambda>t. t \<ge> cutoff) l"

text \<open>The number \<^verbatim>\<open>ip_count\<close> that \<^verbatim>\<open>_check_concurrent_ips\<close> compares with the limit.\<close>

definition ip_count_of :: "settings \<Rightarrow> string set \<Rightarrow> int" where
  "ip_count_of cfg concurrent_ips =
     (if subnet_grouping cfg then int (card (group_ips_by_subnet concurrent_ips))
      else int (card concurrent_ips))"

definition check_concurrent_ips ::
  "settings \<Rightarrow> panel_api \<Rightarrow> user_info \<Rightarrow> datetime \<Rightarrow> server \<Rightarrow> server" where
  "check_concurrent_ips cfg panel user ts st =
     (let em = email user in
      if em \<in> whitelist_emails cfg then st
      else case get_limit panel em of
        None \<Rightarrow> st
      | Some limit \<Rightarrow>
          if limit = 0 then st
          else
            (let st1 = st\<lparr>user_limits := (user_limits st)(em \<mapsto> limit)\<rparr>;
                 concurrent_ips = get_recent_ips user (concurrent_window cfg) 1;
                 ip_count = ip_count_of cfg concurrent_ips
             in if ip_count > limit then
                  (let old = (case map_of (user_triggers st1) em of
                                None \<Rightarrow> [] | Some l \<Rightarrow> l);
                       cutoff = ts - timedelta (trigger_period cfg);
                       triggers = prune cutoff (old @ [ts]);
                       st2 = st1\<lparr>user_triggers :=
                                    AList.update em triggers (user_triggers st1)\<rparr>
                   in if int (length triggers) \<ge> trigger_count cfg then
                        (let st3 = (if em \<notin> set (current_violators st2)
                                    then st2\<lparr>violator_first_seen :=
                                                (violator_first_seen st2)(em \<mapsto> ts),
                                              violator_ips :=
                                                (violator_ips st2)(em \<mapsto> {})\<rparr>
                                    else st2)
                         in st3\<lparr>current_violators :=
                                   add_violator em (current_violators st3),
                                 violator_ips :=
                                   (violator_ips st3)
                                     (em \<mapsto> (case violator_ips st3 em of
                                                 Some s \<Rightarrow> s \<union> concurrent_ips
                                               | None \<Rightarrow> concurrent_ips))\<rparr>)
                      else st2)
                else st1))"

text \<open>
  In the last update \<^verbatim>\<open>self._violator_ips[email]\<close> raises \<^verbatim>\<open>KeyError\<close> when the email is
  in \<^verbatim>\<open>_current_violators\<close> without an entry in \<^verbatim>\<open>_violator_ips\<close>.  The two are only
  ever written together, so the \<open>None\<close> branch is not reached from the initial state.
\<close>

definition on_entry :: "settings \<Rightarrow> panel_api \<Rightarrow> string \<Rightarrow> log_entry \<Rightarrow> server \<Rightarrow> server" where
  "on_entry cfg panel node_name entry st =
     (let (tr, user) = process_entry (tracker st) entry node_name
      in check_concurrent_ips cfg panel user (e_timestamp entry) (st\<lparr>tracker := tr\<rparr>))"

subsection \<open>\_add\_to\_banlist\<close>

text \<open>
  The database and the notifier are optional modules outside this repository.  Their
  part in one sweep is an oracle: whether each module is present, the wall clock read
  inside \<^verbatim>\<open>_add_to_banlist\<close>, whether \<^verbatim>\<open>db.get_active_ban\<close> finds a ban, and whether the
  database write or the send raises.  Each is indexed by the email, which a sweep
  handles at most once.  \<^verbatim>\<open>db.get_active_ban\<close> is taken to return normally.
\<close>

record ban_env =
  has_database :: bool
  has_telegram :: bool
  clock :: "string \<Rightarrow> datetime"
  active_ban :: "string \<Rightarrow> bool"
  db_raises :: "string \<Rightarrow> bool"
  send_raises :: "string \<Rightarrow> bool"

text \<open>
  The calls made to the collaborators, in order.  A call that raises is recorded,
  followed by the error that the \<^verbatim>\<open>except\<close> clause logs.  The arguments are the email,
  the IP count, the IPs, the nodes and the violation duration (and the limit for a send).
\<close>

datatype effect =
    Update_ban_entry string int "string set" "string set" int
  | Add_to_banlist string int "string set" "string set" int datetime
  | Send_violation_continues string int "string set" "string set" int int
  | Send_violation string int "string set" "string set" int int
  | Log_error string

definition request_nodes :: "user_info \<Rightarrow> string set" where
  "request_nodes user =
     set (map r_node_name (filter (\<lambda>req. r_node_name req \<noteq> []) (recent_requests user)))"

text \<open>The \<^verbatim>\<open>try\<close> block around a send: the timestamp is stored only after the call returned.\<close>

definition try_send :: "ban_env \<Rightarrow> string \<Rightarrow> datetime \<Rightarrow> effect \<Rightarrow> server \<Rightarrow> server \<times> effect list" where
  "try_send env em now call st =
     (if send_raises env em then (st, [call, Log_error em])
      else (st\<lparr>last_notification := (last_notification st)(em \<mapsto> now)\<rparr>, [call]))"

definition add_to_banlist ::
  "settings \<Rightarrow> ban_env \<Rightarrow> user_info \<Rightarrow> int \<Rightarrow> int \<Rightarrow> int \<Rightarrow> server \<Rightarrow> server \<times> effect list" where
  "add_to_banlist cfg env user ip_count limit violation_duration st =
     (if \<not> has_database env then (st, [])
      else
        (let em = email user;
             all_violation_ips =
               (case violator_ips st em of Some s \<Rightarrow> s | None \<Rightarrow> {})
                 \<union> get_recent_ips user (concurrent_window cfg) 1;
             nodes = request_nodes user;
             now = clock env em;
             total_ip_count = int (card all_violation_ips);
             st1 = st\<lparr>confirmed_violators := insert em (confirmed_violators st)\<rparr>
         in if active_ban env em then
              (let fx_db = Update_ban_entry em total_ip_count all_violation_ips nodes
                             violation_duration
                           # (if db_raises env em then [Log_error em] else [])
               in if has_telegram env
                     \<and> (case last_notification st1 em of
                          None \<Rightarrow> True
                        | Some last_notif \<Rightarrow>
                            now - last_notif \<ge> timedelta (notification_interval cfg))
                  then (let (st2, fx_tg) =
                              try_send env em now
                                (Send_violation_continues em total_ip_count all_violation_ips
                                   nodes violation_duration limit) st1
                        in (st2, fx_db @ fx_tg))
                  else (st1, fx_db))
            else
              (let fx_db = Add_to_banlist em total_ip_count all_violation_ips nodes
                             violation_duration now
                           # (if db_raises env em then [Log_error em] else [])
               in if has_telegram env
                  then (let (st2, fx_tg) =
                              try_send env em now
                                (Send_violation em total_ip_count all_violation_ips
                                   nodes violation_duration limit) st1
                        in (st2, fx_db @ fx_tg))
                  else (st1, fx_db))))"

subsection \<open>\_check\_limits\<close>

text \<open>\<^verbatim>\<open>int(td.total_seconds())\<close> of a difference of \<open>d\<close> microseconds: truncation to zero.\<close>

definition total_seconds_int :: "int \<Rightarrow> int" where
  "total_seconds_int d = (if d \<ge> 0 then d div 1000000 else - ((- d) div 1000000))"

text \<open>One iteration of the loop over \<^verbatim>\<open>list(self._current_violators)\<close>.\<close>

definition check_violator ::
  "settings \<Rightarrow> ban_env \<Rightarrow> datetime \<Rightarrow> string \<Rightarrow> server \<Rightarrow> server \<times> effect list" where
  "check_violator cfg env now em st =
     (case get_user (tracker st) em of
        None \<Rightarrow> (st, [])
      | Some user \<Rightarrow>
          (let cutoff = now - timedelta (trigger_period cfg);
               st1 = (case map_of (user_triggers st) em of
                        None \<Rightarrow> st
                      | Some l \<Rightarrow>
                          st\<lparr>user_triggers :=
                               AList.update em (prune cutoff l)
                                 (user_triggers st)\<rparr>)
           in if (case map_of (user_triggers st1) em of
                    None \<Rightarrow> False
                  | Some l \<Rightarrow> int (length l) < trigger_count cfg)
              then (st1\<lparr>current_violators := discard_violator em (current_violators st1),
                        violator_first_seen := (violator_first_seen st1)(em := None),
                        violator_ips := (violator_ips st1)(em := None)\<rparr>, [])
              else
                (case violator_first_seen st1 em of
                   None \<Rightarrow> (st1, [])
                 | Some first_seen_at \<Rightarrow>
                     (let time_in_violation = now - first_seen_at;
                          limit = (case user_limits st1 em of Some l \<Rightarrow> l | None \<Rightarrow> 0)
                      in if time_in_violation \<ge> timedelta (banlist_threshold cfg)
                         then add_to_banlist cfg env user
                                (int (card (case violator_ips st1 em of
                                              Some s \<Rightarrow> s | None \<Rightarrow> {})))
                                limit (total_seconds_int time_in_violation) st1
                         else (st1, [])))))"

fun check_violators ::
  "settings \<Rightarrow> ban_env \<Rightarrow> datetime \<Rightarrow> string list \<Rightarrow> server \<Rightarrow> server \<times> effect list" where
  "check_violators cfg env now [] st = (st, [])"
| "check_violators cfg env now (em # ems) st =
     (let (st1, fx1) = check_violator cfg env now em st;
          (st2, fx2) = check_violators cfg env now ems st1
      in (st2, fx1 @ fx2))"

text \<open>
  The second loop, over \<^verbatim>\<open>list(self._user_triggers.keys())\<close>.  The keys of a dict are
  distinct and only the key of the current iteration is deleted, so the lookup finds
  the key; the \<open>None\<close> branch stands for the \<^verbatim>\<open>KeyError\<close> that cannot occur.
\<close>

fun prune_inactive :: "settings \<Rightarrow> datetime \<Rightarrow> string list \<Rightarrow> server \<Rightarrow> server" where
  "prune_inactive cfg now [] st = st"
| "prune_inactive cfg now (em # ems) st =
     prune_inactive cfg now ems
       (if em \<notin> set (current_violators st) then
          (case map_of (user_triggers st) em of
             None \<Rightarrow> st
           | Some l \<Rightarrow>
               (let cutoff = now - timedelta (trigger_period cfg);
                    triggers = prune cutoff l
                in if triggers = []
                   then st\<lparr>user_triggers := AList.delete em (user_triggers st)\<rparr>
                   else st\<lparr>user_triggers := AList.update em triggers (user_triggers st)\<rparr>))
        else st)"

definition check_limits ::
  "settings \<Rightarrow> panel_api \<Rightarrow> ban_env \<Rightarrow> datetime \<Rightarrow> server \<Rightarrow> server \<times> effect list" where
  "check_limits cfg panel env now st =
     (if \<not> is_loaded panel then (st, [])
      else
        (let (st1, fx) = check_violators cfg env now (current_violators st) st
         in (prune_inactive cfg now (map fst (user_triggers st1)) st1, fx)))"

subsection \<open>\_auth\_middleware\<close>

text \<open>
  Of a request the middleware reads the \<^verbatim>\<open>Authorization\<close> header and the \<^verbatim>\<open>token\<close>
  query parameter, each possibly absent.  A response is a status and a JSON object.
  The result is the response together with the requests handed to the wrapped handler.
\<close>

record request =
  header_authorization :: "string option"
  query_token :: "string option"

record response =
  status :: int
  body :: "(string \<times> string) list"

text \<open>The token that the middleware extracts from a request.\<close>

definition request_token :: "request \<Rightarrow> string" where
  "request_token req =
     (let auth_header = (case header_authorization req of Some h \<Rightarrow> h | None \<Rightarrow> [])
      in if take 7 auth_header = ''Bearer '' then drop 7 auth_header
         else (case query_token req of Some t \<Rightarrow> t | None \<Rightarrow> []))"

definition auth_middleware ::
  "settings \<Rightarrow> request \<Rightarrow> (request \<Rightarrow> response) \<Rightarrow> response \<times> request list" where
  "auth_middleware cfg req handler =
     (if api_token cfg \<noteq> [] then
        (let token = request_token req
         in if token \<noteq> api_token cfg
            then (\<lparr>status = 401, body = [(''error'', ''Unauthorized'')]\<rparr>, [])
            else (handler req, [req]))
      else (handler req, [req]))"

section \<open>Runs of the tracker and of the server\<close>

text \<open>
  The tracker is driven by \<^verbatim>\<open>process_entry\<close> (from \<^verbatim>\<open>_on_entry\<close>) and by
  \<^verbatim>\<open>cleanup_old_data\<close> (from \<^verbatim>\<open>_periodic_tasks\<close>), in any order.
\<close>

datatype tracker_op = Process_entry log_entry string | Cleanup_old_data

fun tracker_step :: "user_tracker \<Rightarrow> tracker_op \<Rightarrow> user_tracker" where
  "tracker_step tr (Process_entry entry node_name) = fst (process_entry tr entry node_name)"
| "tracker_step tr Cleanup_old_data = fst (cleanup_old_data tr)"

definition run_tracker :: "user_tracker \<Rightarrow> tracker_op list \<Rightarrow> user_tracker" where
  "run_tracker tr ops = foldl tracker_step tr ops"

text \<open>The timestamps of the processed entries of one email, in arrival order.\<close>

fun user_times :: "string \<Rightarrow> tracker_op list \<Rightarrow> datetime list" where
  "user_times em [] = []"
| "user_times em (Process_entry entry node_name # ops) =
     (if e_email entry = em then e_timestamp entry # user_times em ops
      else user_times em ops)"
| "user_times em (Cleanup_old_data # ops) = user_times em ops"

text \<open>The same for one email and one source IP.\<close>

fun entry_times :: "string \<Rightarrow> string \<Rightarrow> tracker_op list \<Rightarrow> datetime list" where
  "entry_times em ip [] = []"
| "entry_times em ip (Process_entry entry node_name # ops) =
     (if e_email entry = em \<and> e_source_ip entry = ip
      then e_timestamp entry # entry_times em ip ops
      else entry_times em ip ops)"
| "entry_times em ip (Cleanup_old_data # ops) = entry_times em ip ops"

text \<open>The invariants of the per-user state (spec 3.2).\<close>

definition ips_not_after_user :: "user_info \<Rightarrow> bool" where
  "ips_not_after_user u =
     list_all (\<lambda>(ip, stats).
        case last_seen u of Some ls \<Rightarrow> stat_last_seen stats \<le> ls | None \<Rightarrow> False)
       (ip_stats u)"

definition first_not_after_last :: "user_info \<Rightarrow> bool" where
  "first_not_after_last u =
     (case first_seen u of
        None \<Rightarrow> False
      | Some fs \<Rightarrow> (case last_seen u of None \<Rightarrow> False | Some ls \<Rightarrow> fs \<le> ls))"

definition user_invariant :: "user_info \<Rightarrow> bool" where
  "user_invariant u =
     (ips_not_after_user u \<and> request_count u \<ge> blocked_count u \<and> first_not_after_last u)"

text \<open>
  The detection engine is driven by \<^verbatim>\<open>_on_entry\<close>, by the sweep \<^verbatim>\<open>_check_limits\<close> and by
  the tracker's cleanup.  The directory may be reloaded between two steps, so each step
  takes the directory it sees.
\<close>

datatype event = Entry string log_entry | Sweep ban_env datetime | Cleanup

fun step :: "settings \<Rightarrow> panel_api \<Rightarrow> event \<Rightarrow> server \<Rightarrow> server" where
  "step cfg panel (Entry node_name entry) st = on_entry cfg panel node_name entry st"
| "step cfg panel (Sweep env now) st = fst (check_limits cfg panel env now st)"
| "step cfg panel Cleanup st = st\<lparr>tracker := fst (cleanup_old_data (tracker st))\<rparr>"

text \<open>
  The trigger list that an over-limit evaluation at time \<open>t\<close> leaves for the email: the
  old list (empty when there is none) with \<open>t\<close> appended, pruned at
  \<open>t - TRIGGER_PERIOD\<close>.
\<close>

definition new_triggers :: "settings \<Rightarrow> server \<Rightarrow> string \<Rightarrow> datetime \<Rightarrow> datetime list" where
  "new_triggers cfg st em t =
     prune (t - timedelta (trigger_period cfg))
       ((case map_of (user_triggers st) em of None \<Rightarrow> [] | Some l \<Rightarrow> l) @ [t])"

text \<open>Which notification an effect is.\<close>

fun is_continues :: "effect \<Rightarrow> bool" where
  "is_continues (Send_violation_continues em n ips nodes d l) = True"
| "is_continues _ = False"

fun is_new :: "effect \<Rightarrow> bool" where
  "is_new (Send_violation em n ips nodes d l) = True"
| "is_new _ = False"

section \<open>Notions used in the statements and proofs\<close>

text \<open>The state after the pruning step of one iteration.\<close>

definition pruned_for :: "settings \<Rightarrow> datetime \<Rightarrow> string \<Rightarrow> server \<Rightarrow> server" where
  "pruned_for cfg now em st =
     (case map_of (user_triggers st) em of
        None \<Rightarrow> st
      | Some l \<Rightarrow> st\<lparr>user_triggers :=
                      AList.update em (prune (now - timedelta (trigger_period cfg)) l)
                        (user_triggers st)\<rparr>)"

text \<open>
  An email whose user is tracked and whose trigger list, pruned at \<open>now - TRIGGER_PERIOD\<close>,
  is shorter than \<open>TRIGGER_COUNT\<close>: the sweep at \<open>now\<close> will demote it.
\<close>

definition pending :: "settings \<Rightarrow> datetime \<Rightarrow> string \<Rightarrow> server \<Rightarrow> bool" where
  "pending cfg now e st =
     (get_user (tracker st) e \<noteq> None \<and>
      (case map_of (user_triggers st) e of
         None \<Rightarrow> False
       | Some l \<Rightarrow> int (length (prune (now - timedelta (trigger_period cfg)) l))
                    < trigger_count cfg))"

text \<open>Not a violator, and without \<open>violator_first_seen\<close> and \<open>violator_ips\<close> entries.\<close>

definition demoted :: "string \<Rightarrow> server \<Rightarrow> bool" where
  "demoted e st =
     (e \<notin> set (current_violators st) \<and> violator_first_seen st e = None
      \<and> violator_ips st e = None)"

text \<open>Every user is stored under its own email, as \<^verbatim>\<open>process_entry\<close> stores it.\<close>

definition users_keyed :: "user_tracker \<Rightarrow> bool" where
  "users_keyed tr = list_all (\<lambda>(em, u). email u = em) (users tr)"

text \<open>\<^verbatim>\<open>user.get_recent_ips(CONCURRENT_WINDOW)\<close> of the tracked user of an email.\<close>

definition concurrent_ips_of :: "settings \<Rightarrow> server \<Rightarrow> string \<Rightarrow> string set" where
  "concurrent_ips_of cfg st em =
     (case get_user (tracker st) em of
        None \<Rightarrow> {}
      | Some user \<Rightarrow> get_recent_ips user (concurrent_window cfg) 1)"

text \<open>The user object that \<^verbatim>\<open>process_entry\<close> updates: the stored one, or a fresh one.\<close>

definition prior_user :: "user_tracker \<Rightarrow> string \<Rightarrow> user_info" where
  "prior_user tr em = (case map_of (users tr) em of Some u \<Rightarrow> u | None \<Rightarrow> UserInfo em)"

text \<open>\<^verbatim>\<open>ip_stats[ip].last_seen\<close> of the user stored for an email, when both exist.\<close>

definition ip_last_seen :: "user_tracker \<Rightarrow> string \<Rightarrow> string \<Rightarrow> datetime option" where
  "ip_last_seen tr em ip =
     (case map_of (users tr) em of
        None \<Rightarrow> None
      | Some u \<Rightarrow> map_option stat_last_seen (map_of (ip_stats u) ip))"

text \<open>The invariants of spec 3.2 for the user stored for an email, if there is one.\<close>

definition user_ok :: "user_tracker \<Rightarrow> string \<Rightarrow> bool" where
  "user_ok tr em = (case map_of (users tr) em of None \<Rightarrow> True | Some u \<Rightarrow> user_invariant u)"

section \<open>Concrete inputs\<close>

text \<open>The defaults of the end-to-end scenarios (spec 8), with one trigger to a violator.\<close>

definition cfg0 :: settings where
  "cfg0 = \<lparr>api_token = ''secret'', concurrent_window = 2, trigger_period = 30,
           trigger_count = 1, banlist_threshold = 300, subnet_grouping = False,
           data_retention = 300, whitelist_emails = {}, notification_interval = 300\<rparr>"

definition panel0 :: panel_api where
  "panel0 = \<lparr>p_users = [''a@x'' \<mapsto> \<lparr>pu_limit = Some 1\<rparr>], p_loaded = True\<rparr>"

definition entry0 :: "int \<Rightarrow> string \<Rightarrow> log_entry" where
  "entry0 seconds ip =
     \<lparr>e_timestamp = timedelta seconds, e_source_ip = ip, e_protocol = ''tcp'',
      e_destination = ''example.org'', e_destination_port = 443, e_action = ''DIRECT'',
      e_email = ''a@x'', e_raw_line = []\<rparr>"

definition env0 :: ban_env where
  "env0 = \<lparr>has_database = True, has_telegram = True, clock = (\<lambda>em. timedelta 1000),
           active_ban = (\<lambda>em. True), db_raises = (\<lambda>em. False), send_raises = (\<lambda>em. False)\<rparr>"

text \<open>A user seen from three addresses, last at second 10.\<close>

definition user0 :: user_info where
  "user0 = \<lparr>email = ''a@x'',
            ip_stats =
              [(''1.1.1.1'', \<lparr>stat_last_seen = timedelta 10, stat_request_count = 1\<rparr>),
               (''2.2.2.2'', \<lparr>stat_last_seen = timedelta 9, stat_request_count = 4\<rparr>),
               (''3.3.3.3'', \<lparr>stat_last_seen = timedelta 5, stat_request_count = 7\<rparr>)],
            ip_timestamps = [(''1.1.1.1'', timedelta 10), (''2.2.2.2'', timedelta 9),
                             (''3.3.3.3'', timedelta 5)],
            request_count = 12, blocked_count = 0, last_seen = Some (timedelta 10),
            first_seen = Some (timedelta 1), recent_requests = []\<rparr>"

text \<open>No active ban, and the notifier fails; a notification was recorded at second 990.\<close>

definition env1 :: ban_env where
  "env1 = env0\<lparr>active_ban := (\<lambda>em. False), send_raises := (\<lambda>em. True)\<rparr>"

definition server5 :: server where
  "server5 = (BanhammerServer cfg0)\<lparr>last_notification := [''a@x'' \<mapsto> timedelta 990]\<rparr>"

definition handler0 :: "request \<Rightarrow> response" where
  "handler0 req = \<lparr>status = 200, body = []\<rparr>"

text \<open>One entry, then a second address at the same instant: over the limit of one.\<close>

definition server1 :: server where
  "server1 = on_entry cfg0 panel0 ''n1'' (entry0 0 ''1.1.1.1'') (BanhammerServer cfg0)"

definition server2 :: server where
  "server2 = on_entry cfg0 panel0 ''n1'' (entry0 0 ''2.2.2.2'') server1"

text \<open>Then one more entry a hundred seconds later, from a third address.\<close>

definition server3 :: server where
  "server3 = on_entry cfg0 panel0 ''n1'' (entry0 100 ''3.3.3.3'') server2"

text \<open>A sweep at second 1000 demotes the violator; then an entry at second 2000.\<close>

definition server4 :: server where
  "server4 = on_entry cfg0 panel0 ''n1'' (entry0 2000 ''3.3.3.3'')
               (fst (check_limits cfg0 panel0 env0 (timedelta 1000) server2))"

text \<open>The same address twice, with timestamps out of order and in order.\<close>

definition ops53 :: "tracker_op list" where
  "ops53 = [Process_entry (entry0 5 ''1.1.1.1'') ''n1'', Process_entry (entry0 3 ''1.1.1.1'') ''n2'']"

definition ops35 :: "tracker_op list" where
  "ops35 = [Process_entry (entry0 3 ''1.1.1.1'') ''n1'', Cleanup_old_data,
            Process_entry (entry0 5 ''1.1.1.1'') ''n2'']"

text \<open>Two addresses out of order, and the users these runs leave.\<close>

definition ops53b :: "tracker_op list" where
  "ops53b = [Process_entry (entry0 5 ''1.1.1.1'') ''n1'', Process_entry (entry0 3 ''2.2.2.2'') ''n2'']"

definition user53 :: user_info where
  "user53 = snd (process_entry (fst (process_entry (UserTracker 2 3 300) (entry0 5 ''1.1.1.1'') ''n1''))
                   (entry0 3 ''2.2.2.2'') ''n2'')"

definition user35 :: user_info where
  "user35 = snd (process_entry
                   (fst (cleanup_old_data
                      (fst (process_entry (UserTracker 2 3 300) (entry0 3 ''1.1.1.1'') ''n1''))))
                   (entry0 5 ''1.1.1.1'') ''n2'')"

text \<open>A trigger list with one trigger 1000 seconds old and one 5 seconds old.\<close>

definition server6 :: server where
  "server6 = (BanhammerServer cfg0)\<lparr>user_triggers := [(''a@x'', [- 1000000000, 5000000])]\<rparr>"

text \<open>No API token configured; requests without a token and with wrong tokens.\<close>

definition cfg_open :: settings where
  "cfg_open = cfg0\<lparr>api_token := []\<rparr>"

definition req_none :: request where
  "req_none = \<lparr>header_authorization = None, query_token = None\<rparr>"

definition req_bearer_wrong :: request where
  "req_bearer_wrong = \<lparr>header_authorization = Some ''Bearer wrong'', query_token = Some ''secret''\<rparr>"

definition req_query_wrong :: request where
  "req_query_wrong = \<lparr>header_authorization = Some ''Basic secret'', query_token = Some ''guess''\<rparr>"

text \<open>A directory with a limit of two addresses.\<close>

definition panel2 :: panel_api where
  "panel2 = \<lparr>p_users = [''a@x'' \<mapsto> \<lparr>pu_limit = Some 2\<rparr>], p_loaded = True\<rparr>"

text \<open>
  Two addresses a hundred seconds apart, then a third entry: a late line stamped
  second 1, or a line in order stamped second 101.
\<close>

definition server_late :: server where
  "server_late = on_entry cfg0 panel2 ''n2'' (entry0 1 ''3.3.3.3'')
                   (on_entry cfg0 panel2 ''n1'' (entry0 100 ''2.2.2.2'')
                      (on_entry cfg0 panel2 ''n1'' (entry0 0 ''1.1.1.1'') (BanhammerServer cfg0)))"

definition server_in_order :: server where
  "server_in_order = on_entry cfg0 panel2 ''n2'' (entry0 101 ''3.3.3.3'')
                   (on_entry cfg0 panel2 ''n1'' (entry0 100 ''2.2.2.2'')
                      (on_entry cfg0 panel2 ''n1'' (entry0 0 ''1.1.1.1'') (BanhammerServer cfg0)))"

section \<open>The per-entry evaluation\<close>

text \<open>The result of \<^verbatim>\<open>_check_concurrent_ips\<close> on the path that records a trigger.\<close>

lemma check_concurrent_ips_over:
  assumes "email user \<notin> whitelist_emails cfg"
    and "get_limit panel (email user) = Some limit"
    and "limit \<noteq> 0"
    and "ip_count_of cfg (get_recent_ips user (concurrent_window cfg) 1) > limit"
  shows "check_concurrent_ips cfg panel user t st =
     (let em = email user;
          ips = get_recent_ips user (concurrent_window cfg) 1;
          triggers = new_triggers cfg st em t;
          st2 = st\<lparr>user_limits := (user_limits st)(em \<mapsto> limit),
                   user_triggers := AList.update em triggers (user_triggers st)\<rparr>
      in if int (length triggers) \<ge> trigger_count cfg then
           (if em \<notin> set (current_violators st)
            then st2\<lparr>violator_first_seen := (violator_first_seen st)(em \<mapsto> t),
                     current_violators := current_violators st @ [em],
                     violator_ips := (violator_ips st)(em \<mapsto> ips)\<rparr>
            else st2\<lparr>violator_ips :=
                       (violator_ips st)(em \<mapsto> (case violator_ips st em of
                                                    Some s \<Rightarrow> s \<union> ips | None \<Rightarrow> ips))\<rparr>)
         else st2)"
  using assms
  by (simp add: check_concurrent_ips_def new_triggers_def Let_def add_violator_def)

text \<open>
  Claim C1.  When a user who is not whitelisted and has a configured positive limit is
  over that limit at an entry with timestamp \<open>t\<close>, the evaluation leaves as the user's
  trigger list the old list with \<open>t\<close> appended, restricted to the timestamps \<open>x\<close> with
  \<open>t - TRIGGER_PERIOD \<le> x\<close> (the period in microseconds).  If that list has at least
  \<open>TRIGGER_COUNT\<close> elements and the email was not yet a violator, the email is a
  violator afterwards, its \<open>violator_first_seen\<close> is \<open>t\<close>, and its \<open>violator_ips\<close> is
  the empty set united with the addresses of the current window.  In the witness a
  trigger 1000 seconds old is dropped and one 5 seconds old is kept.
\<close>

theorem check_concurrent_ips_trigger:
  assumes "email user \<notin> whitelist_emails cfg"
    and "get_limit panel (email user) = Some limit"
    and "limit > 0"
    and "ip_count_of cfg (get_recent_ips user (concurrent_window cfg) 1) > limit"
  shows
   "map_of (user_triggers (check_concurrent_ips cfg panel user t st)) (email user)
      = Some (filter (\<lambda>x. t - trigger_period cfg * 1000000 \<le> x)
                ((case map_of (user_triggers st) (email user) of
                    None \<Rightarrow> [] | Some l \<Rightarrow> l) @ [t]))
    \<and> (int (length (filter (\<lambda>x. t - trigger_period cfg * 1000000 \<le> x)
                ((case map_of (user_triggers st) (email user) of
                    None \<Rightarrow> [] | Some l \<Rightarrow> l) @ [t])))
          \<ge> trigger_count cfg
        \<and> email user \<notin> set (current_violators st)
       \<longrightarrow> email user \<in> set (current_violators (check_concurrent_ips cfg panel user t st))
         \<and> violator_first_seen (check_concurrent_ips cfg panel user t st) (email user) = Some t
         \<and> violator_ips (check_concurrent_ips cfg panel user t st) (email user)
             = Some ({} \<union> get_recent_ips user (concurrent_window cfg) 1))"
proof -
  from assms have nz: "limit \<noteq> 0" by simp
  note eq = check_concurrent_ips_over [OF assms(1) assms(2) nz assms(4), of t st]
  have nt: "new_triggers cfg st (email user) t
      = filter (\<lambda>x. t - trigger_period cfg * 1000000 \<le> x)
          ((case map_of (user_triggers st) (email user) of None \<Rightarrow> [] | Some l \<Rightarrow> l) @ [t])"
    by (simp add: new_triggers_def prune_def timedelta_def)
  show ?thesis
    unfolding eq nt [symmetric] by (simp add: Let_def update_conv')
qed

lemma user0_recent: "get_recent_ips user0 2 1 = {''1.1.1.1'', ''2.2.2.2''}"
  by code_simp

lemma server6_facts:
  "email user0 \<notin> whitelist_emails cfg0" "get_limit panel0 (email user0) = Some 1"
  "ip_count_of cfg0 (get_recent_ips user0 (concurrent_window cfg0) 1) > 1"
  "map_of (user_triggers server6) (email user0) = Some [- 1000000000, 5000000]"
  "trigger_period cfg0 = 30" "trigger_count cfg0 = 1"
  "email user0 \<notin> set (current_violators server6)"
  "get_recent_ips user0 (concurrent_window cfg0) 1 = {''1.1.1.1'', ''2.2.2.2''}"
  by code_simp+

theorem check_concurrent_ips_trigger_witness:
  "email user0 \<notin> whitelist_emails cfg0 \<and> get_limit panel0 (email user0) = Some 1
   \<and> ip_count_of cfg0 (get_recent_ips user0 (concurrent_window cfg0) 1) > 1
   \<and> map_of (user_triggers server6) (email user0) = Some [- 1000000000, 5000000]
   \<and> map_of (user_triggers (check_concurrent_ips cfg0 panel0 user0 10000000 server6))
         (email user0) = Some [5000000, 10000000]
   \<and> email user0 \<in> set (current_violators
                            (check_concurrent_ips cfg0 panel0 user0 10000000 server6))
   \<and> violator_first_seen (check_concurrent_ips cfg0 panel0 user0 10000000 server6)
         (email user0) = Some 10000000
   \<and> violator_ips (check_concurrent_ips cfg0 panel0 user0 10000000 server6) (email user0)
       = Some {''1.1.1.1'', ''2.2.2.2''}"
  using check_concurrent_ips_trigger [OF server6_facts(1,2) _ server6_facts(3), of 10000000 server6]
    server6_facts
  by simp

section \<open>Recent addresses\<close>

text \<open>
  Claim C7.  For a user whose \<open>last_seen\<close> is set, \<open>get_recent_ips\<close> returns exactly the
  addresses of \<open>ip_stats\<close> whose own \<open>last_seen\<close> is not before the user's \<open>last_seen\<close>
  minus the window and whose request count is at least \<open>min_requests\<close>.  The cutoff is
  taken from the user's state; the function reads no clock.  (A user without
  \<open>last_seen\<close> has no cutoff; the function then returns the empty set.)
\<close>

theorem get_recent_ips_exact:
  "last_seen u = Some ls \<Longrightarrow>
   get_recent_ips u window min_requests =
     {ip. \<exists>stats. (ip, stats) \<in> set (ip_stats u)
            \<and> stat_last_seen stats \<ge> ls - timedelta window
            \<and> stat_request_count stats \<ge> min_requests}"
  by (auto simp: get_recent_ips_def Let_def image_iff)

theorem get_recent_ips_exact_witness:
  "last_seen user0 = Some (timedelta 10) \<and>
   {ip. \<exists>stats. (ip, stats) \<in> set (ip_stats user0)
            \<and> stat_last_seen stats \<ge> timedelta 10 - timedelta 2
            \<and> stat_request_count stats \<ge> 1} = {''1.1.1.1'', ''2.2.2.2''}"
proof -
  have h: "last_seen user0 = Some (timedelta 10)" by (simp add: user0_def)
  from get_recent_ips_exact [OF h, of 2 1] h show ?thesis
    by (simp add: user0_recent)
qed

section \<open>The query API\<close>

text \<open>
  Claim C9, as stated, fails: without a configured token the middleware checks nothing.
  With \<^verbatim>\<open>API_TOKEN\<close> empty, a request whose token differs from it reaches the handler.
\<close>

theorem auth_open_counterexample:
  "request_token \<lparr>header_authorization = Some ''Bearer wrong'', query_token = None\<rparr>
     \<noteq> api_token (cfg0\<lparr>api_token := []\<rparr>) \<and>
   auth_middleware (cfg0\<lparr>api_token := []\<rparr>)
     \<lparr>header_authorization = Some ''Bearer wrong'', query_token = None\<rparr> handler0
   = (\<lparr>status = 200, body = []\<rparr>,
      [\<lparr>header_authorization = Some ''Bearer wrong'', query_token = None\<rparr>])"
  by (simp add: auth_middleware_def request_token_def cfg0_def handler0_def)

lemma request_token_cases:
  "header_authorization req = None \<Longrightarrow>
     request_token req = (case query_token req of Some t \<Rightarrow> t | None \<Rightarrow> [])"
  "header_authorization req = Some h \<Longrightarrow> take 7 h = ''Bearer '' \<Longrightarrow>
     request_token req = drop 7 h"
  "header_authorization req = Some h \<Longrightarrow> take 7 h \<noteq> ''Bearer '' \<Longrightarrow>
     request_token req = (case query_token req of Some t \<Rightarrow> t | None \<Rightarrow> [])"
  by (simp_all add: request_token_def Let_def)

lemma auth_middleware_unauthorized:
  "api_token cfg \<noteq> [] \<Longrightarrow> request_token req \<noteq> api_token cfg \<Longrightarrow>
   auth_middleware cfg req handler
     = (\<lparr>status = 401, body = [(''error'', ''Unauthorized'')]\<rparr>, [])"
  by (simp add: auth_middleware_def)

text \<open>
  Claim C9, amended.  When an API token is configured (not empty), a request that
  carries no token, or whose token (the rest of a \<^verbatim>\<open>Bearer\<close> header, else the \<^verbatim>\<open>token\<close>
  query parameter) differs from it, gets status 401 with the body
  \<^verbatim>\<open>{"error": "Unauthorized"}\<close>, and the wrapped handler is not invoked.  When no API
  token is configured, the middleware checks nothing: every request is handed to the
  handler, once, and the handler's response is returned.
\<close>

theorem auth_middleware_cases:
  "(api_token cfg \<noteq> [] \<and> header_authorization req = None \<and> query_token req = None
      \<longrightarrow> auth_middleware cfg req handler
            = (\<lparr>status = 401, body = [(''error'', ''Unauthorized'')]\<rparr>, []))
   \<and> (api_token cfg \<noteq> [] \<and> header_authorization req = Some (''Bearer '' @ tok)
        \<and> tok \<noteq> api_token cfg
      \<longrightarrow> auth_middleware cfg req handler
            = (\<lparr>status = 401, body = [(''error'', ''Unauthorized'')]\<rparr>, []))
   \<and> (api_token cfg \<noteq> []
        \<and> (header_authorization req = None
            \<or> (\<exists>h. header_authorization req = Some h \<and> take 7 h \<noteq> ''Bearer ''))
        \<and> query_token req = Some tok \<and> tok \<noteq> api_token cfg
      \<longrightarrow> auth_middleware cfg req handler
            = (\<lparr>status = 401, body = [(''error'', ''Unauthorized'')]\<rparr>, []))
   \<and> (api_token cfg \<noteq> [] \<and> request_token req \<noteq> api_token cfg
      \<longrightarrow> auth_middleware cfg req handler
            = (\<lparr>status = 401, body = [(''error'', ''Unauthorized'')]\<rparr>, []))
   \<and> (api_token cfg = [] \<longrightarrow> auth_middleware cfg req handler = (handler req, [req]))"
proof (intro conjI impI)
  assume a: "api_token cfg \<noteq> [] \<and> header_authorization req = None \<and> query_token req = None"
  then have "request_token req = []" by (simp add: request_token_cases(1))
  with a have "request_token req \<noteq> api_token cfg" by auto
  with a show "auth_middleware cfg req handler
            = (\<lparr>status = 401, body = [(''error'', ''Unauthorized'')]\<rparr>, [])"
    by (simp add: auth_middleware_unauthorized)
next
  assume a: "api_token cfg \<noteq> [] \<and> header_authorization req = Some (''Bearer '' @ tok)
        \<and> tok \<noteq> api_token cfg"
  then have "request_token req = tok"
    using request_token_cases(2) [of req "''Bearer '' @ tok"] by simp
  with a have "request_token req \<noteq> api_token cfg" by simp
  with a show "auth_middleware cfg req handler
            = (\<lparr>status = 401, body = [(''error'', ''Unauthorized'')]\<rparr>, [])"
    by (simp add: auth_middleware_unauthorized)
next
  assume a: "api_token cfg \<noteq> []
        \<and> (header_authorization req = None
            \<or> (\<exists>h. header_authorization req = Some h \<and> take 7 h \<noteq> ''Bearer ''))
        \<and> query_token req = Some tok \<and> tok \<noteq> api_token cfg"
  then have "request_token req = tok"
    using request_token_cases(1) [of req] request_token_cases(3) [of req] by auto
  with a have "request_token req \<noteq> api_token cfg" by simp
  with a show "auth_middleware cfg req handler
            = (\<lparr>status = 401, body = [(''error'', ''Unauthorized'')]\<rparr>, [])"
    by (simp add: auth_middleware_unauthorized)
next
  assume "api_token cfg \<noteq> [] \<and> request_token req \<noteq> api_token cfg"
  then show "auth_middleware cfg req handler
            = (\<lparr>status = 401, body = [(''error'', ''Unauthorized'')]\<rparr>, [])"
    by (simp add: auth_middleware_unauthorized)
next
  assume "api_token cfg = []"
  then show "auth_middleware cfg req handler = (handler req, [req])"
    by (simp add: auth_middleware_def)
qed

lemma auth_inputs:
  "api_token cfg0 \<noteq> []" "api_token cfg_open = []"
  "header_authorization req_none = None" "query_token req_none = None"
  "header_authorization req_bearer_wrong = Some (''Bearer '' @ ''wrong'')"
  "''wrong'' \<noteq> api_token cfg0"
  "header_authorization req_query_wrong = Some ''Basic secret''"
  "take 7 ''Basic secret'' \<noteq> ''Bearer ''"
  "query_token req_query_wrong = Some ''guess''" "''guess'' \<noteq> api_token cfg0"
  by (simp_all add: cfg0_def cfg_open_def req_none_def req_bearer_wrong_def req_query_wrong_def)

theorem auth_middleware_cases_witness:
  "api_token cfg0 \<noteq> [] \<and> api_token cfg_open = []
   \<and> auth_middleware cfg0 req_none handler0
        = (\<lparr>status = 401, body = [(''error'', ''Unauthorized'')]\<rparr>, [])
   \<and> auth_middleware cfg0 req_bearer_wrong handler0
        = (\<lparr>status = 401, body = [(''error'', ''Unauthorized'')]\<rparr>, [])
   \<and> auth_middleware cfg0 req_query_wrong handler0
        = (\<lparr>status = 401, body = [(''error'', ''Unauthorized'')]\<rparr>, [])
   \<and> auth_middleware cfg_open req_bearer_wrong handler0
        = (handler0 req_bearer_wrong, [req_bearer_wrong])"
proof -
  have a: "auth_middleware cfg0 req_none handler0
        = (\<lparr>status = 401, body = [(''error'', ''Unauthorized'')]\<rparr>, [])"
    using auth_middleware_cases [where cfg = cfg0 and req = req_none and tok = "[]" and handler = handler0] auth_inputs by blast
  have b: "auth_middleware cfg0 req_bearer_wrong handler0
        = (\<lparr>status = 401, body = [(''error'', ''Unauthorized'')]\<rparr>, [])"
    using auth_middleware_cases [where cfg = cfg0 and req = req_bearer_wrong and tok = "''wrong''" and handler = handler0] auth_inputs
    by blast
  have c: "auth_middleware cfg0 req_query_wrong handler0
        = (\<lparr>status = 401, body = [(''error'', ''Unauthorized'')]\<rparr>, [])"
    using auth_middleware_cases [where cfg = cfg0 and req = req_query_wrong and tok = "''guess''" and handler = handler0] auth_inputs
    by blast
  have d: "auth_middleware cfg_open req_bearer_wrong handler0
        = (handler0 req_bearer_wrong, [req_bearer_wrong])"
    using auth_middleware_cases [where cfg = cfg_open and req = req_bearer_wrong and tok = "[]" and handler = handler0] auth_inputs
    by blast
  from a b c d auth_inputs(1,2) show ?thesis by simp
qed

section \<open>The sweep without a loaded directory\<close>

lemma server2_state:
  "current_violators server2 = [''a@x''] \<and> user_triggers server2 = [(''a@x'', [0])]"
  by code_simp

text \<open>
  Claim C10.  While the directory has not completed a load, \<^verbatim>\<open>_check_limits\<close> returns at
  once: the state is unchanged (no violator demoted, no trigger list pruned or
  deleted) and no effect (ban or notification) is produced.
\<close>

theorem check_limits_not_loaded:
  "\<not> is_loaded panel \<Longrightarrow> check_limits cfg panel env now st = (st, [])"
  by (simp add: check_limits_def)

theorem check_limits_not_loaded_witness:
  "\<not> is_loaded (panel0\<lparr>p_loaded := False\<rparr>) \<and>
   check_limits cfg0 (panel0\<lparr>p_loaded := False\<rparr>) env0 (timedelta 1000) server2
     = (server2, []) \<and>
   current_violators server2 = [''a@x''] \<and> user_triggers server2 = [(''a@x'', [0])] \<and>
   prune (timedelta 1000 - timedelta (trigger_period cfg0)) [0] = []"
proof -
  have h: "\<not> is_loaded (panel0\<lparr>p_loaded := False\<rparr>)" by (simp add: is_loaded_def)
  have p: "prune (timedelta 1000 - timedelta (trigger_period cfg0)) [0] = []"
    by (simp add: prune_def timedelta_def cfg0_def)
  show ?thesis
    using h p server2_state
      check_limits_not_loaded [OF h, of cfg0 env0 "timedelta 1000" server2]
    by simp
qed

section \<open>Notifications on ban escalation\<close>

lemma try_send_fx:
  "list_ex is_continues (snd (try_send env em now call st)) = is_continues call"
  "list_ex is_new (snd (try_send env em now call st)) = is_new call"
  by (simp_all add: try_send_def)

lemma try_send_last:
  "last_notification (fst (try_send env em now call st)) =
     (if send_raises env em then last_notification st else (last_notification st)(em \<mapsto> now))"
  by (simp add: try_send_def)

text \<open>
  Claim C8, as stated, fails: with an active ban and no notification recorded for the
  email, there is no \<open>last_notification_at\<close> whose distance from now could reach
  \<open>NOTIFICATION_INTERVAL\<close>, and \<^verbatim>\<open>_add_to_banlist\<close> sends the "continues" notification.
\<close>

theorem continues_without_last_counterexample:
  "active_ban env0 (email user0)
   \<and> last_notification (BanhammerServer cfg0) (email user0) = None
   \<and> list_ex is_continues
         (snd (add_to_banlist cfg0 env0 user0 2 1 320 (BanhammerServer cfg0)))"
  by code_simp

text \<open>
  Claim C8, amended.  With the database and the notifier present: when an active ban
  exists, a "continues" notification is sent exactly if no notification is recorded
  for the email or \<open>now - last_notification_at \<ge> NOTIFICATION_INTERVAL\<close> (and no "new"
  one is sent); when no active ban exists, a "new" notification is sent whatever
  \<open>last_notification_at\<close> is.  In both branches \<open>last_notification_at\<close> of the email
  becomes \<open>now\<close> exactly if a notification was sent and the send did not raise, and is
  unchanged otherwise; the entries of other emails are unchanged.
\<close>

theorem add_to_banlist_notifications:
  assumes "has_database env" and "has_telegram env"
  shows
   "(active_ban env (email user) \<longrightarrow>
       (list_ex is_continues (snd (add_to_banlist cfg env user ipc limit dur st))
          \<longleftrightarrow> (case last_notification st (email user) of
                 None \<Rightarrow> True
               | Some l \<Rightarrow> clock env (email user) - l \<ge> timedelta (notification_interval cfg)))
       \<and> \<not> list_ex is_new (snd (add_to_banlist cfg env user ipc limit dur st)))
    \<and> (\<not> active_ban env (email user) \<longrightarrow>
         list_ex is_new (snd (add_to_banlist cfg env user ipc limit dur st))
         \<and> \<not> list_ex is_continues (snd (add_to_banlist cfg env user ipc limit dur st)))
    \<and> last_notification (fst (add_to_banlist cfg env user ipc limit dur st)) (email user)
        = (if (list_ex is_continues (snd (add_to_banlist cfg env user ipc limit dur st))
               \<or> list_ex is_new (snd (add_to_banlist cfg env user ipc limit dur st)))
              \<and> \<not> send_raises env (email user)
           then Some (clock env (email user)) else last_notification st (email user))
    \<and> (\<forall>em. em \<noteq> email user \<longrightarrow>
          last_notification (fst (add_to_banlist cfg env user ipc limit dur st)) em
            = last_notification st em)"
  using assms
  by (simp add: add_to_banlist_def Let_def split_beta try_send_fx try_send_last)

lemma env1_facts:
  "has_database env1" "has_telegram env1" "\<not> active_ban env1 (email user0)"
  "send_raises env1 (email user0)" "last_notification server5 (email user0) = Some (timedelta 990)"
  by code_simp+

theorem add_to_banlist_notifications_witness:
  "has_database env1 \<and> has_telegram env1 \<and> \<not> active_ban env1 (email user0)
   \<and> send_raises env1 (email user0)
   \<and> list_ex is_new (snd (add_to_banlist cfg0 env1 user0 2 1 320 server5))
   \<and> last_notification (fst (add_to_banlist cfg0 env1 user0 2 1 320 server5)) (email user0)
       = Some (timedelta 990)"
  using add_to_banlist_notifications [OF env1_facts(1,2), of user0 cfg0 2 1 320 server5]
    env1_facts
  by simp

section \<open>The sweep and the ban list\<close>

lemma add_to_banlist_frame:
  "tracker (fst (add_to_banlist cfg env user ipc limit dur st)) = tracker st"
  "user_triggers (fst (add_to_banlist cfg env user ipc limit dur st)) = user_triggers st"
  "violator_first_seen (fst (add_to_banlist cfg env user ipc limit dur st)) = violator_first_seen st"
  "violator_ips (fst (add_to_banlist cfg env user ipc limit dur st)) = violator_ips st"
  "current_violators (fst (add_to_banlist cfg env user ipc limit dur st)) = current_violators st"
  by (simp_all add: add_to_banlist_def try_send_def Let_def split_beta)

lemma pruned_for_frame:
  "tracker (pruned_for cfg now em st) = tracker st"
  "violator_first_seen (pruned_for cfg now em st) = violator_first_seen st"
  "violator_ips (pruned_for cfg now em st) = violator_ips st"
  "current_violators (pruned_for cfg now em st) = current_violators st"
  by (simp_all add: pruned_for_def split: option.splits)

lemma pruned_for_triggers:
  "map_of (user_triggers (pruned_for cfg now em st)) e =
     (if e = em then map_option (prune (now - timedelta (trigger_period cfg)))
                      (map_of (user_triggers st) em)
      else map_of (user_triggers st) e)"
  by (simp add: pruned_for_def update_conv' split: option.splits)

lemma check_violator_cases:
  "check_violator cfg env now em st =
     (case get_user (tracker st) em of
        None \<Rightarrow> (st, [])
      | Some user \<Rightarrow>
          (let st1 = pruned_for cfg now em st
           in if (case map_of (user_triggers st1) em of
                    None \<Rightarrow> False
                  | Some l \<Rightarrow> int (length l) < trigger_count cfg)
              then (st1\<lparr>current_violators := discard_violator em (current_violators st1),
                        violator_first_seen := (violator_first_seen st1)(em := None),
                        violator_ips := (violator_ips st1)(em := None)\<rparr>, [])
              else
                (case violator_first_seen st1 em of
                   None \<Rightarrow> (st1, [])
                 | Some first_seen_at \<Rightarrow>
                     (if now - first_seen_at \<ge> timedelta (banlist_threshold cfg)
                      then add_to_banlist cfg env user
                             (int (card (case violator_ips st1 em of
                                           Some s \<Rightarrow> s | None \<Rightarrow> {})))
                             (case user_limits st1 em of Some l \<Rightarrow> l | None \<Rightarrow> 0)
                             (total_seconds_int (now - first_seen_at)) st1
                      else (st1, [])))))"
  unfolding check_violator_def pruned_for_def Let_def
  by (simp split: option.splits)

lemma check_violator_tracker:
  "tracker (fst (check_violator cfg env now em st)) = tracker st"
  by (simp add: check_violator_cases Let_def add_to_banlist_frame pruned_for_frame
      split: option.splits)

lemma check_violator_other:
  assumes "e \<noteq> em"
  shows "map_of (user_triggers (fst (check_violator cfg env now em st))) e
           = map_of (user_triggers st) e"
    and "violator_first_seen (fst (check_violator cfg env now em st)) e
           = violator_first_seen st e"
    and "violator_ips (fst (check_violator cfg env now em st)) e = violator_ips st e"
    and "e \<in> set (current_violators (fst (check_violator cfg env now em st)))
           \<longleftrightarrow> e \<in> set (current_violators st)"
  using assms
  by (simp_all add: check_violator_cases Let_def add_to_banlist_frame pruned_for_frame
      pruned_for_triggers discard_violator_def split: option.splits)

lemma check_violator_subset:
  "set (current_violators (fst (check_violator cfg env now em st)))
     \<subseteq> set (current_violators st)"
  by (auto simp add: check_violator_cases Let_def add_to_banlist_frame pruned_for_frame
      discard_violator_def split: option.splits)

lemma prune_idem: "prune c (prune c l) = prune c l"
  by (simp add: prune_def)


lemma check_violator_self:
  assumes "pending cfg now e st"
  shows "demoted e (fst (check_violator cfg env now e st))"
    and "pending cfg now e (fst (check_violator cfg env now e st))"
  using assms
  by (auto simp add: pending_def demoted_def check_violator_cases Let_def pruned_for_frame
      pruned_for_triggers discard_violator_def prune_idem split: option.splits)

lemma check_violator_pending:
  assumes "pending cfg now e st"
  shows "pending cfg now e (fst (check_violator cfg env now em st))"
proof (cases "e = em")
  case True
  with assms show ?thesis by (simp add: check_violator_self)
next
  case False
  with assms show ?thesis
    by (simp add: pending_def check_violator_other check_violator_tracker)
qed

lemma check_violator_demoted:
  assumes "pending cfg now e st" and "demoted e st"
  shows "demoted e (fst (check_violator cfg env now em st))"
proof (cases "e = em")
  case True
  with assms show ?thesis by (simp add: check_violator_self)
next
  case False
  with assms show ?thesis
    by (simp add: demoted_def check_violator_other)
qed

lemma check_violators_tracker:
  "tracker (fst (check_violators cfg env now ems st)) = tracker st"
  by (induction ems arbitrary: st) (simp_all add: split_beta check_violator_tracker)

lemma check_violators_subset:
  "set (current_violators (fst (check_violators cfg env now ems st)))
     \<subseteq> set (current_violators st)"
proof (induction ems arbitrary: st)
  case Nil
  show ?case by simp
next
  case (Cons em ems)
  have "set (current_violators (fst (check_violators cfg env now ems
               (fst (check_violator cfg env now em st)))))
          \<subseteq> set (current_violators (fst (check_violator cfg env now em st)))"
    by (rule Cons.IH)
  also have "\<dots> \<subseteq> set (current_violators st)"
    by (rule check_violator_subset)
  finally show ?case by (simp add: split_beta)
qed

lemma check_violators_demotes:
  assumes "pending cfg now e st" and "e \<in> set ems \<or> demoted e st"
  shows "demoted e (fst (check_violators cfg env now ems st))"
  using assms
proof (induction ems arbitrary: st)
  case Nil
  then show ?case by simp
next
  case (Cons em ems)
  let ?st1 = "fst (check_violator cfg env now em st)"
  have p: "pending cfg now e ?st1"
    using Cons.prems(1) by (rule check_violator_pending)
  have "e \<in> set ems \<or> demoted e ?st1"
  proof (cases "e = em")
    case True
    with Cons.prems(1) show ?thesis by (simp add: check_violator_self)
  next
    case False
    with Cons.prems show ?thesis
      by (auto simp add: check_violator_demoted)
  qed
  with p have "demoted e (fst (check_violators cfg env now ems ?st1))"
    by (rule Cons.IH)
  then show ?case by (simp add: split_beta)
qed

lemma prune_inactive_frame:
  "tracker (prune_inactive cfg now ems st) = tracker st"
  "violator_first_seen (prune_inactive cfg now ems st) = violator_first_seen st"
  "violator_ips (prune_inactive cfg now ems st) = violator_ips st"
  "current_violators (prune_inactive cfg now ems st) = current_violators st"
  by (induction ems arbitrary: st) (simp_all add: Let_def split: option.splits)

lemma check_limits_subset:
  "set (current_violators (fst (check_limits cfg panel env now st)))
     \<subseteq> set (current_violators st)"
  by (simp add: check_limits_def split_beta prune_inactive_frame check_violators_subset)

lemma check_limits_demotes:
  assumes "is_loaded panel" and "e \<in> set (current_violators st)" and "pending cfg now e st"
  shows "demoted e (fst (check_limits cfg panel env now st))"
proof -
  have "demoted e (fst (check_violators cfg env now (current_violators st) st))"
    using assms(3) assms(2) by (simp add: check_violators_demotes)
  then show ?thesis
    using assms(1)
    by (simp add: check_limits_def split_beta demoted_def prune_inactive_frame)
qed

lemma users_keyed_email:
  "users_keyed tr \<Longrightarrow> map_of (users tr) em = Some u \<Longrightarrow> email u = em"
  by (auto simp: users_keyed_def list_all_iff dest!: map_of_SomeD)

lemma process_entry_email:
  assumes "users_keyed tr"
  shows "email (snd (process_entry tr entry node)) = e_email entry"
proof (cases "map_of (users tr) (e_email entry)")
  case None
  then show ?thesis
    by (simp add: process_entry_def Let_def update_conv' UserInfo_def add_ip_def
        add_request_def)
next
  case (Some u)
  with assms have "email u = e_email entry" by (simp add: users_keyed_email)
  with Some show ?thesis
    by (simp add: process_entry_def Let_def add_ip_def add_request_def)
qed

lemma process_entry_stored:
  "map_of (users (fst (process_entry tr entry node))) (e_email entry)
     = Some (snd (process_entry tr entry node))"
  by (simp add: process_entry_def Let_def update_conv' split: option.split del: not_None_eq)

lemma check_concurrent_ips_tracker:
  "tracker (check_concurrent_ips cfg panel user t st) = tracker st"
  by (simp add: check_concurrent_ips_def Let_def split: option.splits)

lemma check_concurrent_ips_same:
  assumes "\<not> (email user \<notin> whitelist_emails cfg
            \<and> (\<exists>limit. get_limit panel (email user) = Some limit \<and> limit \<noteq> 0
                  \<and> ip_count_of cfg (get_recent_ips user (concurrent_window cfg) 1) > limit))"
  shows "current_violators (check_concurrent_ips cfg panel user t st) = current_violators st"
    and "violator_ips (check_concurrent_ips cfg panel user t st) = violator_ips st"
    and "violator_first_seen (check_concurrent_ips cfg panel user t st) = violator_first_seen st"
    and "user_triggers (check_concurrent_ips cfg panel user t st) = user_triggers st"
  using assms
  by (auto simp add: check_concurrent_ips_def Let_def split: option.splits)

lemma check_concurrent_ips_enters:
  assumes "em \<notin> set (current_violators st)"
    and "em \<in> set (current_violators (check_concurrent_ips cfg panel user t st))"
  shows "em = email user
    \<and> map_of (user_triggers (check_concurrent_ips cfg panel user t st)) em
          = Some (new_triggers cfg st em t)
    \<and> int (length (new_triggers cfg st em t)) \<ge> trigger_count cfg
    \<and> violator_first_seen (check_concurrent_ips cfg panel user t st) em = Some t
    \<and> violator_ips (check_concurrent_ips cfg panel user t st) em
          = Some (get_recent_ips user (concurrent_window cfg) 1)"
proof (cases "email user \<notin> whitelist_emails cfg
            \<and> (\<exists>limit. get_limit panel (email user) = Some limit \<and> limit \<noteq> 0
                  \<and> ip_count_of cfg (get_recent_ips user (concurrent_window cfg) 1) > limit)")
  case False
  then have "current_violators (check_concurrent_ips cfg panel user t st) = current_violators st"
    by (rule check_concurrent_ips_same)
  with assms show ?thesis by simp
next
  case True
  then obtain limit where w: "email user \<notin> whitelist_emails cfg"
    and l: "get_limit panel (email user) = Some limit" and nz: "limit \<noteq> 0"
    and c: "ip_count_of cfg (get_recent_ips user (concurrent_window cfg) 1) > limit"
    by blast
  note eq = check_concurrent_ips_over [OF w l nz c, of t st]
  from assms show ?thesis
    unfolding eq by (auto simp add: Let_def update_conv' split: if_splits)
qed

lemma on_entry_unfold:
  "on_entry cfg panel node entry st =
     check_concurrent_ips cfg panel (snd (process_entry (tracker st) entry node))
       (e_timestamp entry) (st\<lparr>tracker := fst (process_entry (tracker st) entry node)\<rparr>)"
  by (simp add: on_entry_def split_beta)

lemma on_entry_tracker:
  "tracker (on_entry cfg panel node entry st) = fst (process_entry (tracker st) entry node)"
  by (simp add: on_entry_unfold check_concurrent_ips_tracker)

lemma new_triggers_tracker [simp]:
  "new_triggers cfg (st\<lparr>tracker := tr\<rparr>) em t = new_triggers cfg st em t"
  by (simp add: new_triggers_def)

lemma step_enters:
  assumes "users_keyed (tracker st)"
    and "em \<notin> set (current_violators st)"
    and "em \<in> set (current_violators (step cfg panel ev st))"
  shows "\<exists>node entry. ev = Entry node entry \<and> e_email entry = em
     \<and> map_of (user_triggers (step cfg panel ev st)) em
           = Some (new_triggers cfg st em (e_timestamp entry))
     \<and> int (length (new_triggers cfg st em (e_timestamp entry))) \<ge> trigger_count cfg
     \<and> violator_first_seen (step cfg panel ev st) em = Some (e_timestamp entry)
     \<and> violator_ips (step cfg panel ev st) em
           = Some (concurrent_ips_of cfg (step cfg panel ev st) em)"
proof (cases ev)
  case (Entry node entry)
  let ?u = "snd (process_entry (tracker st) entry node)"
  let ?st0 = "st\<lparr>tracker := fst (process_entry (tracker st) entry node)\<rparr>"
  let ?st' = "check_concurrent_ips cfg panel ?u (e_timestamp entry) ?st0"
  have st': "step cfg panel ev st = ?st'"
    using Entry by (simp add: on_entry_unfold)
  have a: "em \<notin> set (current_violators ?st0)" using assms(2) by simp
  have b: "em \<in> set (current_violators ?st')"
    using assms(3) st' by simp
  note r = check_concurrent_ips_enters [OF a b, unfolded new_triggers_tracker]
  from r have "em = email ?u" by blast
  then have em: "e_email entry = em"
    using assms(1) by (simp add: process_entry_email)
  from r have r1: "map_of (user_triggers ?st') em
      = Some (new_triggers cfg st em (e_timestamp entry))" by blast
  from r have r2: "int (length (new_triggers cfg st em (e_timestamp entry)))
      \<ge> trigger_count cfg" by blast
  from r have r3: "violator_first_seen ?st' em = Some (e_timestamp entry)" by blast
  from r have r4: "violator_ips ?st' em = Some (get_recent_ips ?u (concurrent_window cfg) 1)"
    by blast
  have "tracker ?st' = fst (process_entry (tracker st) entry node)"
    by (simp add: check_concurrent_ips_tracker)
  then have "get_user (tracker ?st') em = Some ?u"
    using process_entry_stored [of "tracker st" entry node] em
    by (simp add: get_user_def)
  then have r5: "concurrent_ips_of cfg ?st' em = get_recent_ips ?u (concurrent_window cfg) 1"
    by (simp add: concurrent_ips_of_def)
  show ?thesis
    unfolding st' using Entry em r1 r2 r3 r4 r5 by simp
next
  case (Sweep env now)
  with assms(2,3) check_limits_subset [of cfg panel env now st] show ?thesis by auto
next
  case Cleanup
  with assms(2,3) show ?thesis by simp
qed

text \<open>
  Claim C2.  Let an email be in the violator set, and let a sweep prune its triggers:
  the directory is loaded, the user is tracked and has a trigger list.  If fewer than
  \<open>TRIGGER_COUNT\<close> triggers remain after pruning at \<open>now - TRIGGER_PERIOD\<close>, then after
  the sweep the email is not in the violator set and has neither a
  \<open>violator_first_seen\<close> nor a \<open>violator_ips\<close> entry.  Consequently a later re-entry
  starts afresh: whenever a step takes the email from outside the violator set into
  it, the step is the evaluation of one of its entries, \<open>violator_first_seen\<close> is that
  entry's timestamp, and \<open>violator_ips\<close> is the empty set united with the addresses of
  the current window.
\<close>

theorem sweep_demotes_reentry_fresh:
  assumes "is_loaded panel"
    and "em \<in> set (current_violators st)"
    and "get_user (tracker st) em \<noteq> None"
    and "map_of (user_triggers st) em = Some l"
    and "int (length (prune (now - timedelta (trigger_period cfg)) l)) < trigger_count cfg"
  shows "em \<notin> set (current_violators (fst (check_limits cfg panel env now st)))
    \<and> violator_first_seen (fst (check_limits cfg panel env now st)) em = None
    \<and> violator_ips (fst (check_limits cfg panel env now st)) em = None
    \<and> (\<forall>s panel' ev.
          users_keyed (tracker s) \<longrightarrow> em \<notin> set (current_violators s) \<longrightarrow>
          em \<in> set (current_violators (step cfg panel' ev s)) \<longrightarrow>
          (\<exists>node entry. ev = Entry node entry \<and> e_email entry = em
             \<and> violator_first_seen (step cfg panel' ev s) em = Some (e_timestamp entry)
             \<and> violator_ips (step cfg panel' ev s) em
                   = Some ({} \<union> concurrent_ips_of cfg (step cfg panel' ev s) em)))"
proof -
  have "pending cfg now em st"
    using assms(3,4,5) by (simp add: pending_def)
  with assms(1,2) have "demoted em (fst (check_limits cfg panel env now st))"
    by (rule check_limits_demotes)
  moreover have "\<exists>node entry. ev = Entry node entry \<and> e_email entry = em
             \<and> violator_first_seen (step cfg panel' ev s) em = Some (e_timestamp entry)
             \<and> violator_ips (step cfg panel' ev s) em
                   = Some ({} \<union> concurrent_ips_of cfg (step cfg panel' ev s) em)"
    if "users_keyed (tracker s)" "em \<notin> set (current_violators s)"
      "em \<in> set (current_violators (step cfg panel' ev s))" for s panel' ev
    using step_enters [OF that] by auto
  ultimately show ?thesis by (simp add: demoted_def)
qed

lemma server2_facts:
  "is_loaded panel0" "''a@x'' \<in> set (current_violators server2)"
  "get_user (tracker server2) ''a@x'' \<noteq> None"
  "map_of (user_triggers server2) ''a@x'' = Some [0]"
  "int (length (prune (timedelta 1000 - timedelta (trigger_period cfg0)) [0])) < trigger_count cfg0"
  by code_simp+

lemma server4_facts:
  "users_keyed (tracker server4)" "''a@x'' \<notin> set (current_violators server4)"
  "''a@x'' \<in> set (current_violators (step cfg0 panel0 (Entry ''n1'' (entry0 2000 ''4.4.4.4'')) server4))"
  "concurrent_ips_of cfg0 (step cfg0 panel0 (Entry ''n1'' (entry0 2000 ''4.4.4.4'')) server4) ''a@x''
     = {''3.3.3.3'', ''4.4.4.4''}"
  by code_simp+

theorem sweep_demotes_reentry_fresh_witness:
  "is_loaded panel0 \<and> ''a@x'' \<in> set (current_violators server2)
   \<and> get_user (tracker server2) ''a@x'' \<noteq> None
   \<and> map_of (user_triggers server2) ''a@x'' = Some [0]
   \<and> int (length (prune (timedelta 1000 - timedelta (trigger_period cfg0)) [0]))
         < trigger_count cfg0
   \<and> ''a@x'' \<notin> set (current_violators (fst (check_limits cfg0 panel0 env0 (timedelta 1000) server2)))
   \<and> violator_ips (fst (check_limits cfg0 panel0 env0 (timedelta 1000) server2)) ''a@x'' = None
   \<and> users_keyed (tracker server4) \<and> ''a@x'' \<notin> set (current_violators server4)
   \<and> violator_first_seen
         (step cfg0 panel0 (Entry ''n1'' (entry0 2000 ''4.4.4.4'')) server4) ''a@x''
       = Some (timedelta 2000)
   \<and> violator_ips
         (step cfg0 panel0 (Entry ''n1'' (entry0 2000 ''4.4.4.4'')) server4) ''a@x''
       = Some {''3.3.3.3'', ''4.4.4.4''}"
proof -
  note t = sweep_demotes_reentry_fresh [OF server2_facts, of env0]
  from t have d: "''a@x'' \<notin> set (current_violators (fst (check_limits cfg0 panel0 env0 (timedelta 1000) server2)))"
    "violator_ips (fst (check_limits cfg0 panel0 env0 (timedelta 1000) server2)) ''a@x'' = None"
    by blast+
  from t server4_facts(1,2,3)
  have "\<exists>node entry. Entry ''n1'' (entry0 2000 ''4.4.4.4'') = Entry node entry
     \<and> violator_first_seen (step cfg0 panel0 (Entry ''n1'' (entry0 2000 ''4.4.4.4'')) server4) ''a@x''
          = Some (e_timestamp entry)
     \<and> violator_ips (step cfg0 panel0 (Entry ''n1'' (entry0 2000 ''4.4.4.4'')) server4) ''a@x''
          = Some ({} \<union> concurrent_ips_of cfg0
               (step cfg0 panel0 (Entry ''n1'' (entry0 2000 ''4.4.4.4'')) server4) ''a@x'')"
    by blast
  then obtain node entry where e: "Entry ''n1'' (entry0 2000 ''4.4.4.4'') = Entry node entry"
    and f: "violator_first_seen (step cfg0 panel0 (Entry ''n1'' (entry0 2000 ''4.4.4.4'')) server4) ''a@x''
          = Some (e_timestamp entry)"
    and i: "violator_ips (step cfg0 panel0 (Entry ''n1'' (entry0 2000 ''4.4.4.4'')) server4) ''a@x''
          = Some ({} \<union> concurrent_ips_of cfg0
               (step cfg0 panel0 (Entry ''n1'' (entry0 2000 ''4.4.4.4'')) server4) ''a@x'')"
    by blast
  from e have "entry = entry0 2000 ''4.4.4.4''" by simp
  then have ts: "e_timestamp entry = timedelta 2000" by (simp add: entry0_def)
  have r: "violator_first_seen
         (step cfg0 panel0 (Entry ''n1'' (entry0 2000 ''4.4.4.4'')) server4) ''a@x''
       = Some (timedelta 2000)"
    "violator_ips
         (step cfg0 panel0 (Entry ''n1'' (entry0 2000 ''4.4.4.4'')) server4) ''a@x''
       = Some {''3.3.3.3'', ''4.4.4.4''}"
    unfolding f i ts server4_facts(4) by simp_all
  show ?thesis
    using server2_facts server4_facts(1,2) d r by simp
qed

section \<open>The violator set between sweeps\<close>





text \<open>
  Claim C4, as stated, fails in the same state: the third entry is under the limit, so
  its evaluation returns before \<open>violator_ips\<close> is touched, and the address of the
  current window is missing from it.
\<close>

theorem violator_ips_miss_counterexample:
  "''a@x'' \<in> set (current_violators server3)
   \<and> violator_ips server3 ''a@x'' = Some {''1.1.1.1'', ''2.2.2.2''}
   \<and> concurrent_ips_of cfg0 server3 ''a@x'' = {''3.3.3.3''}
   \<and> \<not> {''3.3.3.3''} \<subseteq> {''1.1.1.1'', ''2.2.2.2''}"
  by code_simp

text \<open>
  Claim C4, amended.  Consider the evaluation of an entry.  If the user (not
  whitelisted, with a configured limit other than zero) is over the limit and the
  trigger list stored by the evaluation has at least \<open>TRIGGER_COUNT\<close> elements, then
  afterwards the email is in the violator set and its \<open>violator_ips\<close> contains the
  user's recent addresses of the concurrent window.  In every other case (whitelisted,
  no limit, under the limit, or a trigger list below \<open>TRIGGER_COUNT\<close>) the evaluation
  leaves \<open>violator_ips\<close> as it was.
\<close>

theorem violator_ips_after_entry:
  assumes "users_keyed (tracker st)"
  shows
   "((e_email entry \<notin> whitelist_emails cfg
      \<and> (\<exists>limit. get_limit panel (e_email entry) = Some limit \<and> limit \<noteq> 0
            \<and> ip_count_of cfg (concurrent_ips_of cfg (on_entry cfg panel node entry st)
                                 (e_email entry)) > limit)
      \<and> (\<exists>ts. map_of (user_triggers (on_entry cfg panel node entry st)) (e_email entry)
                  = Some ts \<and> int (length ts) \<ge> trigger_count cfg))
     \<longrightarrow> e_email entry \<in> set (current_violators (on_entry cfg panel node entry st))
       \<and> (\<exists>s. violator_ips (on_entry cfg panel node entry st) (e_email entry) = Some s
              \<and> concurrent_ips_of cfg (on_entry cfg panel node entry st) (e_email entry)
                   \<subseteq> s))
    \<and> (\<not> (e_email entry \<notin> whitelist_emails cfg
      \<and> (\<exists>limit. get_limit panel (e_email entry) = Some limit \<and> limit \<noteq> 0
            \<and> ip_count_of cfg (concurrent_ips_of cfg (on_entry cfg panel node entry st)
                                 (e_email entry)) > limit)
      \<and> (\<exists>ts. map_of (user_triggers (on_entry cfg panel node entry st)) (e_email entry)
                  = Some ts \<and> int (length ts) \<ge> trigger_count cfg))
     \<longrightarrow> violator_ips (on_entry cfg panel node entry st) = violator_ips st)"
proof -
  let ?u = "snd (process_entry (tracker st) entry node)"
  let ?st0 = "st\<lparr>tracker := fst (process_entry (tracker st) entry node)\<rparr>"
  let ?st' = "on_entry cfg panel node entry st"
  let ?ips = "get_recent_ips ?u (concurrent_window cfg) 1"
  have em: "email ?u = e_email entry"
    using assms by (rule process_entry_email)
  have "get_user (tracker ?st') (e_email entry) = Some ?u"
    by (simp add: get_user_def on_entry_tracker process_entry_stored)
  then have c: "concurrent_ips_of cfg ?st' (e_email entry) = ?ips"
    by (simp add: concurrent_ips_of_def)
  have eq: "?st' = check_concurrent_ips cfg panel ?u (e_timestamp entry) ?st0"
    by (rule on_entry_unfold)
  show ?thesis
  proof (cases "email ?u \<notin> whitelist_emails cfg
            \<and> (\<exists>limit. get_limit panel (email ?u) = Some limit \<and> limit \<noteq> 0
                  \<and> ip_count_of cfg ?ips > limit)")
    case False
    then have "violator_ips (check_concurrent_ips cfg panel ?u (e_timestamp entry) ?st0)
                 = violator_ips ?st0"
      by (rule check_concurrent_ips_same)
    then have same: "violator_ips ?st' = violator_ips st" unfolding eq by simp
    from False have "\<not> (e_email entry \<notin> whitelist_emails cfg
        \<and> (\<exists>limit. get_limit panel (e_email entry) = Some limit \<and> limit \<noteq> 0
              \<and> ip_count_of cfg (concurrent_ips_of cfg ?st' (e_email entry)) > limit))"
      unfolding c em .
    with same show ?thesis by blast
  next
    case True
    then obtain limit where w: "email ?u \<notin> whitelist_emails cfg"
      and l: "get_limit panel (email ?u) = Some limit" and nz: "limit \<noteq> 0"
      and o: "ip_count_of cfg ?ips > limit" by blast
    from True have tr: "e_email entry \<notin> whitelist_emails cfg
        \<and> (\<exists>limit. get_limit panel (e_email entry) = Some limit \<and> limit \<noteq> 0
              \<and> ip_count_of cfg (concurrent_ips_of cfg ?st' (e_email entry)) > limit)"
      unfolding c em .
    note over = check_concurrent_ips_over [OF w l nz o, of "e_timestamp entry" ?st0]
    let ?nt = "new_triggers cfg st (e_email entry) (e_timestamp entry)"
    have trig: "map_of (user_triggers ?st') (e_email entry) = Some ?nt"
      unfolding eq over by (simp add: Let_def update_conv' em)
    show ?thesis
    proof (cases "int (length ?nt) \<ge> trigger_count cfg")
      case True
      have "e_email entry \<in> set (current_violators ?st')
          \<and> (\<exists>s. violator_ips ?st' (e_email entry) = Some s \<and> ?ips \<subseteq> s)"
        unfolding eq over using True
        by (auto simp add: Let_def em split: option.splits)
      moreover from True trig
      have "\<exists>ts. map_of (user_triggers ?st') (e_email entry) = Some ts
                \<and> int (length ts) \<ge> trigger_count cfg" by simp
      ultimately show ?thesis using tr unfolding c by blast
    next
      case False
      have "violator_ips ?st' = violator_ips st"
        unfolding eq over using False by (simp add: Let_def em)
      with False trig show ?thesis by simp
    qed
  qed
qed

lemma server1_entry:
  "users_keyed (tracker server1)"
  "e_email (entry0 0 ''2.2.2.2'') \<notin> whitelist_emails cfg0"
  "get_limit panel0 (e_email (entry0 0 ''2.2.2.2'')) = Some 1"
  "ip_count_of cfg0 (concurrent_ips_of cfg0
      (on_entry cfg0 panel0 ''n1'' (entry0 0 ''2.2.2.2'') server1) (e_email (entry0 0 ''2.2.2.2''))) > 1"
  "map_of (user_triggers (on_entry cfg0 panel0 ''n1'' (entry0 0 ''2.2.2.2'') server1))
      (e_email (entry0 0 ''2.2.2.2'')) = Some [0]"
  "int (length [0 :: int]) \<ge> trigger_count cfg0"
  "concurrent_ips_of cfg0 (on_entry cfg0 panel0 ''n1'' (entry0 0 ''2.2.2.2'') server1)
      (e_email (entry0 0 ''2.2.2.2'')) = {''1.1.1.1'', ''2.2.2.2''}"
  by code_simp+

lemma server2_entry:
  "users_keyed (tracker server2)"
  "get_limit panel0 (e_email (entry0 100 ''3.3.3.3'')) = Some 1"
  "\<not> ip_count_of cfg0 (concurrent_ips_of cfg0
      (on_entry cfg0 panel0 ''n1'' (entry0 100 ''3.3.3.3'') server2) (e_email (entry0 100 ''3.3.3.3''))) > 1"
  "violator_ips server2 (e_email (entry0 100 ''3.3.3.3'')) = Some {''1.1.1.1'', ''2.2.2.2''}"
  by code_simp+

theorem violator_ips_after_entry_witness:
  "users_keyed (tracker server1) \<and> users_keyed (tracker server2)
   \<and> e_email (entry0 0 ''2.2.2.2'')
        \<in> set (current_violators (on_entry cfg0 panel0 ''n1'' (entry0 0 ''2.2.2.2'') server1))
   \<and> (\<exists>s. violator_ips (on_entry cfg0 panel0 ''n1'' (entry0 0 ''2.2.2.2'') server1)
             (e_email (entry0 0 ''2.2.2.2'')) = Some s
           \<and> {''1.1.1.1'', ''2.2.2.2''} \<subseteq> s)
   \<and> violator_ips (on_entry cfg0 panel0 ''n1'' (entry0 100 ''3.3.3.3'') server2)
        (e_email (entry0 100 ''3.3.3.3'')) = Some {''1.1.1.1'', ''2.2.2.2''}"
proof -
  have a: "e_email (entry0 0 ''2.2.2.2'')
        \<in> set (current_violators (on_entry cfg0 panel0 ''n1'' (entry0 0 ''2.2.2.2'') server1))
   \<and> (\<exists>s. violator_ips (on_entry cfg0 panel0 ''n1'' (entry0 0 ''2.2.2.2'') server1)
             (e_email (entry0 0 ''2.2.2.2'')) = Some s
           \<and> {''1.1.1.1'', ''2.2.2.2''} \<subseteq> s)"
    using violator_ips_after_entry [OF server1_entry(1), of "entry0 0 ''2.2.2.2''" cfg0 panel0 "''n1''"]
      server1_entry(2,3,4,5,6)
    unfolding server1_entry(7) by auto
  have "violator_ips (on_entry cfg0 panel0 ''n1'' (entry0 100 ''3.3.3.3'') server2)
          = violator_ips server2"
    using violator_ips_after_entry [OF server2_entry(1), of "entry0 100 ''3.3.3.3''" cfg0 panel0 "''n1''"]
      server2_entry(2,3)
    by auto
  with a server1_entry(1) server2_entry(1,4) show ?thesis by simp
qed

section \<open>Runs of the tracker\<close>

lemma map_of_fold_delete:
  "map_of (fold AList.delete ks al) k = (if k \<in> set ks then None else map_of al k)"
  by (induction ks arbitrary: al) (simp_all add: delete_conv')

lemma set_delete_subset: "set (AList.delete k al) \<subseteq> set al"
  by (auto simp: AList.delete_eq)

lemma set_fold_delete_subset: "set (fold AList.delete ks al) \<subseteq> set al"
proof (induction ks arbitrary: al)
  case Nil
  show ?case by simp
next
  case (Cons k ks)
  have "set (fold AList.delete ks (AList.delete k al)) \<subseteq> set (AList.delete k al)"
    by (rule Cons.IH)
  with set_delete_subset [of k al] show ?case by auto
qed

lemma set_update_subset: "set (AList.update k v al) \<subseteq> insert (k, v) (set al)"
  by (induction al) auto

lemma cleanup_old_ips_fields:
  "email (fst (cleanup_old_ips u w)) = email u"
  "request_count (fst (cleanup_old_ips u w)) = request_count u"
  "blocked_count (fst (cleanup_old_ips u w)) = blocked_count u"
  "last_seen (fst (cleanup_old_ips u w)) = last_seen u"
  "first_seen (fst (cleanup_old_ips u w)) = first_seen u"
  by (simp_all add: cleanup_old_ips_def Let_def split: option.splits)

lemma cleanup_old_ips_subset:
  "set (ip_stats (fst (cleanup_old_ips u w))) \<subseteq> set (ip_stats u)"
  by (simp add: cleanup_old_ips_def Let_def set_fold_delete_subset split: option.splits)

lemma cleanup_old_ips_lookup:
  "map_of (ip_stats (fst (cleanup_old_ips u w))) ip = Some s \<Longrightarrow> map_of (ip_stats u) ip = Some s"
  by (simp add: cleanup_old_ips_def Let_def map_of_fold_delete split: option.splits if_splits)

lemma cleanup_pass_lookup:
  "map_of (fst (cleanup_pass c w us)) em = Some u' \<Longrightarrow>
   \<exists>u. map_of us em = Some u \<and> (u' = u \<or> u' = fst (cleanup_old_ips u w))"
  by (induction us) (auto simp: split_beta split: if_splits)

lemma cleanup_old_data_lookup:
  assumes "map_of (users (fst (cleanup_old_data tr))) em = Some u'"
  shows "\<exists>u. map_of (users tr) em = Some u
              \<and> (u' = u \<or> u' = fst (cleanup_old_ips u (window_seconds tr)))"
proof (cases "latest_timestamp tr")
  case None
  with assms show ?thesis by (simp add: cleanup_old_data_def)
next
  case (Some lt)
  with assms have "map_of (fst (cleanup_pass (lt - timedelta (max_age_seconds tr))
                      (window_seconds tr) (users tr))) em = Some u'"
    by (simp add: cleanup_old_data_def Let_def split_beta map_of_fold_delete split: if_splits)
  then show ?thesis by (rule cleanup_pass_lookup)
qed

lemma process_entry_lookup:
  "map_of (users (fst (process_entry tr entry node))) em =
     (if em = e_email entry then Some (snd (process_entry tr entry node))
      else map_of (users tr) em)"
  by (simp add: process_entry_def Let_def update_conv' split: option.split del: not_None_eq)

lemma process_entry_user:
  "ip_stats (snd (process_entry tr entry node))
     = ip_stats (add_ip (prior_user tr (e_email entry)) (e_source_ip entry) (e_timestamp entry))"
  "last_seen (snd (process_entry tr entry node)) = Some (e_timestamp entry)"
  "first_seen (snd (process_entry tr entry node))
     = (case first_seen (prior_user tr (e_email entry)) of
          None \<Rightarrow> Some (e_timestamp entry) | Some fs \<Rightarrow> Some fs)"
  "request_count (snd (process_entry tr entry node))
     = request_count (prior_user tr (e_email entry)) + 1"
  "blocked_count (snd (process_entry tr entry node))
     = blocked_count (prior_user tr (e_email entry))
       + (if e_action entry = ''BLOCK'' then 1 else 0)"
  by (auto simp add: process_entry_def Let_def prior_user_def update_conv' add_ip_def
      add_request_def UserInfo_def split: option.splits)

lemma add_ip_lookup:
  "map_option stat_last_seen (map_of (ip_stats (add_ip u ip ts)) ip')
     = (if ip' = ip then Some ts else map_option stat_last_seen (map_of (ip_stats u) ip'))"
  by (simp add: add_ip_def update_conv' split: option.splits)

lemma add_ip_set:
  "(ip', s) \<in> set (ip_stats (add_ip u ip ts)) \<Longrightarrow>
     stat_last_seen s = ts \<or> (ip', s) \<in> set (ip_stats u)"
  using set_update_subset
  by (fastforce simp add: add_ip_def split: option.splits)

lemma entry_times_append:
  "entry_times em ip (ops @ ops') = entry_times em ip ops @ entry_times em ip ops'"
  by (induction em ip ops rule: entry_times.induct) simp_all

lemma user_times_append:
  "user_times em (ops @ ops') = user_times em ops @ user_times em ops'"
  by (induction em ops rule: user_times.induct) simp_all

lemma run_tracker_snoc:
  "run_tracker tr (ops @ [op]) = tracker_step (run_tracker tr ops) op"
  by (simp add: run_tracker_def)

lemma ip_last_seen_cleanup:
  assumes "ip_last_seen (fst (cleanup_old_data tr)) em ip = Some t"
  shows "ip_last_seen tr em ip = Some t"
proof -
  from assms obtain u' s where u': "map_of (users (fst (cleanup_old_data tr))) em = Some u'"
    and s: "map_of (ip_stats u') ip = Some s" and t: "stat_last_seen s = t"
    by (auto simp: ip_last_seen_def split: option.splits)
  from cleanup_old_data_lookup [OF u'] obtain u where u: "map_of (users tr) em = Some u"
    and c: "u' = u \<or> u' = fst (cleanup_old_ips u (window_seconds tr))" by blast
  from c s have "map_of (ip_stats u) ip = Some s"
    by (auto dest: cleanup_old_ips_lookup)
  with u t show ?thesis by (simp add: ip_last_seen_def)
qed

lemma ip_last_seen_prior:
  "map_option stat_last_seen (map_of (ip_stats (prior_user tr em)) ip) = ip_last_seen tr em ip"
  by (simp add: ip_last_seen_def prior_user_def UserInfo_def split: option.split)

lemma ip_last_seen_process:
  "ip_last_seen (fst (process_entry tr entry node)) em ip =
     (if em = e_email entry
      then (if ip = e_source_ip entry then Some (e_timestamp entry)
            else ip_last_seen tr em ip)
      else ip_last_seen tr em ip)"
proof (cases "em = e_email entry")
  case True
  have "ip_last_seen (fst (process_entry tr entry node)) em ip
      = map_option stat_last_seen (map_of (ip_stats (snd (process_entry tr entry node))) ip)"
    unfolding ip_last_seen_def process_entry_lookup using True by simp
  also have "\<dots> = (if ip = e_source_ip entry then Some (e_timestamp entry)
                    else ip_last_seen tr em ip)"
    unfolding process_entry_user(1) add_ip_lookup ip_last_seen_prior using True by simp
  finally show ?thesis using True by simp
next
  case False
  then show ?thesis
    unfolding ip_last_seen_def process_entry_lookup by simp
qed

lemma ip_last_seen_run:
  "ip_last_seen (run_tracker (UserTracker w m a) ops) em ip = Some t \<Longrightarrow>
   entry_times em ip ops \<noteq> [] \<and> t = last (entry_times em ip ops)"
proof (induction ops arbitrary: t rule: rev_induct)
  case Nil
  then show ?case by (simp add: run_tracker_def UserTracker_def ip_last_seen_def)
next
  case (snoc op ops)
  let ?tr = "run_tracker (UserTracker w m a) ops"
  show ?case
  proof (cases op)
    case Cleanup_old_data
    with snoc.prems have "ip_last_seen (fst (cleanup_old_data ?tr)) em ip = Some t"
      by (simp add: run_tracker_snoc)
    then have "ip_last_seen ?tr em ip = Some t" by (rule ip_last_seen_cleanup)
    then have "entry_times em ip ops \<noteq> [] \<and> t = last (entry_times em ip ops)"
      by (rule snoc.IH)
    with Cleanup_old_data show ?thesis by (simp add: entry_times_append)
  next
    case (Process_entry entry node)
    with snoc.prems
    have p: "ip_last_seen (fst (process_entry ?tr entry node)) em ip = Some t"
      by (simp add: run_tracker_snoc)
    show ?thesis
    proof (cases "em = e_email entry \<and> ip = e_source_ip entry")
      case True
      with p have "t = e_timestamp entry" by (simp add: ip_last_seen_process)
      with True Process_entry show ?thesis by (simp add: entry_times_append)
    next
      case False
      with p have "ip_last_seen ?tr em ip = Some t"
        by (simp add: ip_last_seen_process split: if_splits)
      then have "entry_times em ip ops \<noteq> [] \<and> t = last (entry_times em ip ops)"
        by (rule snoc.IH)
      moreover from False Process_entry have "entry_times em ip [op] = []" by auto
      ultimately show ?thesis by (simp add: entry_times_append)
    qed
  qed
qed

lemma sorted_le_last:
  fixes xs :: "int list"
  shows "sorted xs \<Longrightarrow> y \<in> set xs \<Longrightarrow> y \<le> last xs"
  by (induction xs) auto

lemma sorted_last_Max:
  fixes xs :: "int list"
  assumes "sorted xs" and "xs \<noteq> []"
  shows "last xs = Max (set xs)"
proof (rule sym, rule Max_eqI)
  show "finite (set xs)" by simp
  show "y \<le> last xs" if "y \<in> set xs" for y
    using assms(1) that by (rule sorted_le_last)
  show "last xs \<in> set xs" using assms(2) by simp
qed

text \<open>
  When the timestamps of an email and source address arrive in order, the code does
  what claim C5 says: an address present in a stored user's \<open>ip_stats\<close> has as
  \<open>last_seen\<close> the timestamp of the entry processed last, which is then the maximum.
\<close>

lemma ip_last_seen_latest_arrival:
  assumes "ip_last_seen (run_tracker (UserTracker w m a) ops) em ip = Some t"
  shows "entry_times em ip ops \<noteq> [] \<and> t = last (entry_times em ip ops)
    \<and> (sorted (entry_times em ip ops) \<longrightarrow> t = Max (set (entry_times em ip ops)))"
  using ip_last_seen_run [OF assms] by (simp add: sorted_last_Max)

text \<open>
  Claim C5: \<open>ip_stats[ip].last_seen\<close> is the maximum timestamp over the processed entries
  with that email and source address.  The code breaks it on a late line:
  \<^verbatim>\<open>add_ip\<close> overwrites \<open>last_seen\<close> with the timestamp at hand, while the same call of
  \<^verbatim>\<open>process_entry\<close> guards \<^verbatim>\<open>_latest_timestamp\<close> against older timestamps.  After an entry
  at second 5 and then one at second 3, same email and address, \<open>last_seen\<close> is second
  3, and the maximum is second 5.
\<close>

theorem late_entry_ip_last_seen:
  "ip_last_seen (run_tracker (UserTracker 2 3 300) ops53) ''a@x'' ''1.1.1.1'' = Some (timedelta 3)
   \<and> entry_times ''a@x'' ''1.1.1.1'' ops53 = [timedelta 5, timedelta 3]
   \<and> Max (set [timedelta 5, timedelta 3]) = timedelta 5
   \<and> timedelta 3 \<noteq> timedelta 5"
  by code_simp

lemma ops35_facts:
  "ip_last_seen (run_tracker (UserTracker 2 3 300) ops35) ''a@x'' ''1.1.1.1'' = Some (timedelta 5)"
  "entry_times ''a@x'' ''1.1.1.1'' ops35 = [timedelta 3, timedelta 5]"
  "sorted [timedelta 3, timedelta 5]"
  by code_simp+

lemma ip_last_seen_in_order_example:
  "ip_last_seen (run_tracker (UserTracker 2 3 300) ops35) ''a@x'' ''1.1.1.1'' = Some (timedelta 5)
   \<and> sorted (entry_times ''a@x'' ''1.1.1.1'' ops35)
   \<and> timedelta 5 = Max (set (entry_times ''a@x'' ''1.1.1.1'' ops35))"
  using ip_last_seen_latest_arrival [OF ops35_facts(1)] ops35_facts
  by simp

section \<open>The invariants of the per-user state\<close>

lemma user_invariant_cleanup:
  assumes "user_invariant u"
  shows "user_invariant (fst (cleanup_old_ips u w))"
proof -
  let ?u' = "fst (cleanup_old_ips u w)"
  have l: "last_seen ?u' = last_seen u" and f: "first_seen ?u' = first_seen u"
    by (simp_all add: cleanup_old_ips_fields)
  have "ips_not_after_user ?u'"
    using assms cleanup_old_ips_subset [of u w]
    unfolding user_invariant_def ips_not_after_user_def l list_all_iff by blast
  moreover have "first_not_after_last ?u'"
    using assms unfolding user_invariant_def first_not_after_last_def l f by blast
  moreover have "request_count ?u' \<ge> blocked_count ?u'"
    using assms by (simp add: user_invariant_def cleanup_old_ips_fields)
  ultimately show ?thesis by (simp add: user_invariant_def)
qed

lemma prior_counts:
  "map_of (users tr) em = None \<Longrightarrow> request_count (prior_user tr em) = 0"
  "map_of (users tr) em = None \<Longrightarrow> blocked_count (prior_user tr em) = 0"
  "map_of (users tr) em = None \<Longrightarrow> ip_stats (prior_user tr em) = []"
  "map_of (users tr) em = None \<Longrightarrow> first_seen (prior_user tr em) = None"
  "map_of (users tr) em = Some u \<Longrightarrow> prior_user tr em = u"
  by (simp_all add: prior_user_def UserInfo_def)

lemma process_entry_counts:
  assumes "request_count (prior_user tr (e_email entry))
             \<ge> blocked_count (prior_user tr (e_email entry))"
  shows "request_count (snd (process_entry tr entry node))
           \<ge> blocked_count (snd (process_entry tr entry node))"
  using assms by (simp add: process_entry_user)

lemma process_entry_ips:
  assumes "\<forall>(ip, s) \<in> set (ip_stats (prior_user tr (e_email entry))).
             stat_last_seen s \<le> e_timestamp entry"
  shows "ips_not_after_user (snd (process_entry tr entry node))"
proof -
  have "stat_last_seen s \<le> e_timestamp entry"
    if "(ip, s) \<in> set (ip_stats (snd (process_entry tr entry node)))" for ip s
    using that assms add_ip_set [of ip s "prior_user tr (e_email entry)"]
    by (fastforce simp add: process_entry_user(1))
  then show ?thesis
    by (auto simp add: ips_not_after_user_def list_all_iff process_entry_user(2))
qed

lemma process_entry_first:
  assumes "case first_seen (prior_user tr (e_email entry)) of
             None \<Rightarrow> True | Some fs \<Rightarrow> fs \<le> e_timestamp entry"
  shows "first_not_after_last (snd (process_entry tr entry node))"
  using assms
  by (simp add: first_not_after_last_def process_entry_user split: option.splits)

lemma user_invariant_bounds:
  assumes "user_invariant u" and "last_seen u = Some l" and "l \<le> t"
  shows "\<forall>(ip, s) \<in> set (ip_stats u). stat_last_seen s \<le> t"
    and "case first_seen u of None \<Rightarrow> True | Some fs \<Rightarrow> fs \<le> t"
    and "request_count u \<ge> blocked_count u"
  using assms
  by (auto simp add: user_invariant_def ips_not_after_user_def first_not_after_last_def
      list_all_iff split: option.splits)

lemma process_entry_invariant:
  assumes "case map_of (users tr) (e_email entry) of
             None \<Rightarrow> True
           | Some u \<Rightarrow> user_invariant u
                       \<and> (case last_seen u of None \<Rightarrow> False | Some l \<Rightarrow> l \<le> e_timestamp entry)"
  shows "user_invariant (snd (process_entry tr entry node))"
proof (cases "map_of (users tr) (e_email entry)")
  case None
  then show ?thesis
    unfolding user_invariant_def
    by (simp add: process_entry_ips process_entry_first process_entry_counts prior_counts)
next
  case (Some u)
  with assms obtain l where inv: "user_invariant u" and l: "last_seen u = Some l"
    and le: "l \<le> e_timestamp entry"
    by (auto split: option.splits)
  note b = user_invariant_bounds [OF inv l le]
  from Some have p: "prior_user tr (e_email entry) = u" by (rule prior_counts)
  show ?thesis
    unfolding user_invariant_def
    using b by (simp add: process_entry_ips process_entry_first process_entry_counts p)
qed

lemma sorted_snoc_last:
  fixes xs :: "int list"
  assumes "sorted (xs @ [t])"
  shows "sorted xs" and "xs \<noteq> [] \<Longrightarrow> last xs \<le> t"
  using assms by (auto simp add: sorted_append)

lemma user_state_run:
  assumes "sorted (user_times em ops)"
    and "map_of (users (run_tracker (UserTracker w m a) ops)) em = Some u"
  shows "user_times em ops \<noteq> [] \<and> last_seen u = Some (last (user_times em ops))
         \<and> user_invariant u"
  using assms
proof (induction ops arbitrary: u rule: rev_induct)
  case Nil
  then show ?case by (simp add: run_tracker_def UserTracker_def)
next
  case (snoc op ops)
  let ?tr = "run_tracker (UserTracker w m a) ops"
  show ?case
  proof (cases op)
    case Cleanup_old_data
    with snoc.prems have s: "sorted (user_times em ops)"
      and c: "map_of (users (fst (cleanup_old_data ?tr))) em = Some u"
      by (simp_all add: user_times_append run_tracker_snoc)
    from cleanup_old_data_lookup [OF c] obtain u0 where u0: "map_of (users ?tr) em = Some u0"
      and d: "u = u0 \<or> u = fst (cleanup_old_ips u0 (window_seconds ?tr))" by blast
    note ih = snoc.IH [OF s u0]
    from d ih have "last_seen u = Some (last (user_times em ops)) \<and> user_invariant u"
      by (auto simp add: cleanup_old_ips_fields user_invariant_cleanup)
    with ih Cleanup_old_data show ?thesis by (simp add: user_times_append)
  next
    case (Process_entry entry node)
    with snoc.prems
    have p: "map_of (users (fst (process_entry ?tr entry node))) em = Some u"
      by (simp add: run_tracker_snoc)
    show ?thesis
    proof (cases "em = e_email entry")
      case False
      with snoc.prems(1) Process_entry have s: "sorted (user_times em ops)"
        by (simp add: user_times_append)
      from p False have "map_of (users ?tr) em = Some u"
        by (simp add: process_entry_lookup)
      with s have "user_times em ops \<noteq> [] \<and> last_seen u = Some (last (user_times em ops))
         \<and> user_invariant u" by (rule snoc.IH)
      with False Process_entry show ?thesis by (simp add: user_times_append)
    next
      case True
      with snoc.prems(1) Process_entry
      have st: "sorted (user_times em ops @ [e_timestamp entry])"
        by (simp add: user_times_append)
      note s = sorted_snoc_last [OF st]
      from p True have u: "u = snd (process_entry ?tr entry node)"
        by (simp add: process_entry_lookup)
      have "case map_of (users ?tr) (e_email entry) of
              None \<Rightarrow> True
            | Some u0 \<Rightarrow> user_invariant u0
                 \<and> (case last_seen u0 of None \<Rightarrow> False | Some l \<Rightarrow> l \<le> e_timestamp entry)"
      proof (cases "map_of (users ?tr) (e_email entry)")
        case None
        then show ?thesis by simp
      next
        case (Some u0)
        with True have "map_of (users ?tr) em = Some u0" by simp
        from snoc.IH [OF s(1) this] s(2) Some show ?thesis by simp
      qed
      then have "user_invariant u"
        unfolding u by (rule process_entry_invariant)
      moreover have "last_seen u = Some (e_timestamp entry)"
        unfolding u by (rule process_entry_user)
      ultimately show ?thesis
        using True Process_entry by (simp add: user_times_append)
    qed
  qed
qed

lemma counts_run:
  "map_of (users (run_tracker (UserTracker w m a) ops)) em = Some u \<Longrightarrow>
   request_count u \<ge> blocked_count u"
proof (induction ops arbitrary: u em rule: rev_induct)
  case Nil
  then show ?case by (simp add: run_tracker_def UserTracker_def)
next
  case (snoc op ops)
  let ?tr = "run_tracker (UserTracker w m a) ops"
  show ?case
  proof (cases op)
    case Cleanup_old_data
    with snoc.prems have c: "map_of (users (fst (cleanup_old_data ?tr))) em = Some u"
      by (simp add: run_tracker_snoc)
    from cleanup_old_data_lookup [OF c] obtain u0 where u0: "map_of (users ?tr) em = Some u0"
      and d: "u = u0 \<or> u = fst (cleanup_old_ips u0 (window_seconds ?tr))" by blast
    from snoc.IH [OF u0] d show ?thesis by (auto simp add: cleanup_old_ips_fields)
  next
    case (Process_entry entry node)
    with snoc.prems
    have p: "map_of (users (fst (process_entry ?tr entry node))) em = Some u"
      by (simp add: run_tracker_snoc)
    show ?thesis
    proof (cases "em = e_email entry")
      case False
      with p have "map_of (users ?tr) em = Some u" by (simp add: process_entry_lookup)
      then show ?thesis by (rule snoc.IH)
    next
      case True
      with p have u: "u = snd (process_entry ?tr entry node)"
        by (simp add: process_entry_lookup)
      have "request_count (prior_user ?tr (e_email entry))
              \<ge> blocked_count (prior_user ?tr (e_email entry))"
      proof (cases "map_of (users ?tr) (e_email entry)")
        case None
        then show ?thesis by (simp add: prior_counts)
      next
        case (Some u0)
        from snoc.IH [OF Some] Some show ?thesis by (simp add: prior_counts)
      qed
      then show ?thesis unfolding u by (rule process_entry_counts)
    qed
  qed
qed

text \<open>
  When the entries of an email arrive in non-decreasing timestamp order, the stored
  user satisfies the invariants of claim C6; \<open>request_count \<ge> blocked_count\<close> holds in
  any order.
\<close>

lemma user_invariant_in_order:
  assumes "map_of (users (run_tracker (UserTracker w m a) ops)) em = Some u"
  shows "request_count u \<ge> blocked_count u
    \<and> (sorted (user_times em ops) \<longrightarrow> user_invariant u)"
  using counts_run [OF assms] user_state_run [OF _ assms] by blast

text \<open>
  A late line makes addresses seen a hundred seconds apart count as concurrent: the
  user's \<open>last_seen\<close> falls back to second 1, the cutoff of \<open>get_recent_ips\<close> with it,
  and a user with a limit of two and never more than two addresses within the window
  becomes a violator.  The same line in order leaves the user under the limit.
\<close>

lemma late_entry_false_violator:
  "concurrent_ips_of cfg0 server_late ''a@x'' = {''1.1.1.1'', ''2.2.2.2'', ''3.3.3.3''}
   \<and> current_violators server_late = [''a@x'']
   \<and> concurrent_ips_of cfg0 server_in_order ''a@x'' = {''2.2.2.2'', ''3.3.3.3''}
   \<and> current_violators server_in_order = []"
  by code_simp

text \<open>
  Claim C6: after every tracker operation every user has each address's \<open>last_seen\<close>
  not after the user's \<open>last_seen\<close>, \<open>request_count \<ge> blocked_count\<close>, and
  \<open>first_seen \<le> last_seen\<close>.  The code breaks the first and the third on a late line:
  \<^verbatim>\<open>process_entry\<close> overwrites the user's \<open>last_seen\<close> with the timestamp at hand, while
  it guards \<^verbatim>\<open>_latest_timestamp\<close> against older timestamps.  After an entry at second 5
  and then one at second 3 from another address, the user's \<open>last_seen\<close> is second 3,
  while the first address's \<open>last_seen\<close> and the user's \<open>first_seen\<close> are second 5.
\<close>

theorem late_entry_user_invariant:
  "map_of (users (run_tracker (UserTracker 2 3 300) ops53b)) ''a@x'' = Some user53
   \<and> last_seen user53 = Some (timedelta 3) \<and> first_seen user53 = Some (timedelta 5)
   \<and> ip_last_seen (run_tracker (UserTracker 2 3 300) ops53b) ''a@x'' ''1.1.1.1''
        = Some (timedelta 5)
   \<and> \<not> timedelta 5 \<le> timedelta 3
   \<and> \<not> ips_not_after_user user53 \<and> \<not> first_not_after_last user53
   \<and> \<not> user_ok (run_tracker (UserTracker 2 3 300) ops53b) ''a@x''"
  by code_simp

lemma user35_facts:
  "map_of (users (run_tracker (UserTracker 2 3 300) ops35)) ''a@x'' = Some user35"
  "sorted (user_times ''a@x'' ops35)"
  by code_simp+

lemma user_invariant_in_order_example:
  "map_of (users (run_tracker (UserTracker 2 3 300) ops35)) ''a@x'' = Some user35
   \<and> sorted (user_times ''a@x'' ops35)
   \<and> request_count user35 \<ge> blocked_count user35 \<and> user_invariant user35"
  using user_invariant_in_order [OF user35_facts(1)] user35_facts
  by blast

section \<open>Reachable states keep users under their own email\<close>

text \<open>
  The statements about \<open>step\<close> above assume \<open>users_keyed\<close>.  It holds in the initial
  state and every step preserves it, so it holds in every reachable state.
\<close>

lemma process_entry_users:
  "users (fst (process_entry tr entry node))
     = AList.update (e_email entry) (snd (process_entry tr entry node)) (users tr)"
  by (simp add: process_entry_def Let_def split: option.split del: not_None_eq)

lemma users_keyed_process:
  assumes "users_keyed tr"
  shows "users_keyed (fst (process_entry tr entry node))"
proof -
  have "email u = em"
    if "(em, u) \<in> set (users (fst (process_entry tr entry node)))" for em u
  proof -
    from that set_update_subset
    have "(em, u) = (e_email entry, snd (process_entry tr entry node))
            \<or> (em, u) \<in> set (users tr)"
      unfolding process_entry_users by fastforce
    then show ?thesis
    proof
      assume "(em, u) = (e_email entry, snd (process_entry tr entry node))"
      with assms show ?thesis by (simp add: process_entry_email)
    next
      assume "(em, u) \<in> set (users tr)"
      with assms show ?thesis by (auto simp: users_keyed_def list_all_iff)
    qed
  qed
  then show ?thesis by (auto simp: users_keyed_def list_all_iff)
qed

lemma cleanup_pass_set:
  "(em, u') \<in> set (fst (cleanup_pass c w us)) \<Longrightarrow>
   \<exists>u. (em, u) \<in> set us \<and> (u' = u \<or> u' = fst (cleanup_old_ips u w))"
proof (induction us)
  case Nil
  then show ?case by simp
next
  case (Cons p us)
  obtain em0 u0 where p: "p = (em0, u0)" by (cases p)
  let ?g = "if (case last_seen u0 of Some ls \<Rightarrow> ls < c | None \<Rightarrow> False)
            then u0 else fst (cleanup_old_ips u0 w)"
  from Cons.prems p have "(em, u') = (em0, ?g) \<or> (em, u') \<in> set (fst (cleanup_pass c w us))"
    by (simp add: split_beta split: if_splits)
  then show ?case
  proof
    assume "(em, u') = (em0, ?g)"
    then have "(em, u0) \<in> set (p # us) \<and> (u' = u0 \<or> u' = fst (cleanup_old_ips u0 w))"
      using p by (simp split: if_splits)
    then show ?thesis by blast
  next
    assume "(em, u') \<in> set (fst (cleanup_pass c w us))"
    from Cons.IH [OF this] show ?thesis by auto
  qed
qed

lemma users_keyed_cleanup:
  assumes "users_keyed tr"
  shows "users_keyed (fst (cleanup_old_data tr))"
proof (cases "latest_timestamp tr")
  case None
  with assms show ?thesis by (simp add: cleanup_old_data_def)
next
  case (Some lt)
  let ?us = "fst (cleanup_pass (lt - timedelta (max_age_seconds tr)) (window_seconds tr) (users tr))"
  have "email u' = em" if "(em, u') \<in> set ?us" for em u'
    using cleanup_pass_set [OF that] assms
    by (auto simp: users_keyed_def list_all_iff cleanup_old_ips_fields)
  moreover have "set (users (fst (cleanup_old_data tr))) \<subseteq> set ?us"
    using Some by (simp add: cleanup_old_data_def Let_def split_beta set_fold_delete_subset)
  ultimately show ?thesis by (auto simp: users_keyed_def list_all_iff)
qed

lemma check_limits_tracker:
  "tracker (fst (check_limits cfg panel env now st)) = tracker st"
  by (simp add: check_limits_def split_beta prune_inactive_frame check_violators_tracker)

lemma users_keyed_init: "users_keyed (tracker (BanhammerServer cfg))"
  by (simp add: users_keyed_def BanhammerServer_def UserTracker_def)

lemma users_keyed_step:
  "users_keyed (tracker st) \<Longrightarrow> users_keyed (tracker (step cfg panel ev st))"
  by (cases ev)
    (simp_all add: on_entry_tracker users_keyed_process check_limits_tracker users_keyed_cleanup)

end
